theory Spec2Isabelle
  imports Main "HOL-Library.Signed_Division"
begin

section \<open>The server tree of m\_spanningtree (treeserver.cpp)\<close>

text \<open>
  A \<open>TreeServer*\<close> is an address; \<open>NULL\<close> is \<open>None\<close>. The objects live in an
  explicit store, so that the parent, route and child pointers alias as they do in
  the C++ code, and a destroyed object is an address the store no longer maps.
\<close>

type_synonym addr = nat

type_synonym sockref = nat

datatype fake_user = FakeClient | FakeUser string string

datatype error = NullDeref | UseAfterFree

record TreeServer =
  Parent :: "addr option"
  Route :: "addr option"
  Children :: "addr list"
  ServerName :: string
  ServerDesc :: string
  VersionString :: string
  Socket :: "sockref option"
  sid :: string
  ServerUser :: fake_user
  age :: int
  Warned :: bool
  bursting :: bool
  UserCount :: nat
  OperCount :: nat
  rtt :: nat
  StartBurst :: int
  Hidden :: bool
  NextPing :: int
  LastPingWasGood :: bool

record User =
  nick :: string
  server :: string
  is_local :: bool
  quietquit :: bool

text \<open>
  Everything the code does to its collaborators is appended to one log, in the order
  of the calls: the debug log, \<open>XLines->ApplyLines()\<close>, \<open>SNO->WriteToSnoMask\<close>, the
  \<open>AddServerEvent\<close> macro, \<open>Users->QuitUser\<close>, \<open>ServerUser->cull()\<close>,
  \<open>delete ServerUser\<close> and the destruction of a node. What a collaborator does with
  a call (the ban rules \<open>ApplyLines\<close> enforces, who reads a notice) is not part of this
  file and not modelled.
\<close>

datatype event =
    LogDebug string
  | ApplyLines
  | SnoNotice char string
  | ServerEvent string
  | QuitUser User string "string option"
  | CullServerUser fake_user
  | DeleteServerUser fake_user
  | Destroyed addr

text \<open>
  The globals the file reads and writes: the store of nodes, \<open>Utils->TreeRoot\<close>,
  \<open>Utils->serverlist\<close>, \<open>Utils->sidlist\<close>, \<open>Utils->PingFreq\<close>,
  \<open>Utils->quiet_bursts\<close>, \<open>Config->HideSplits\<close>, the cached clock
  (\<open>ServerInstance->Time()\<close>, \<open>Time_ns()\<close>), the user registry
  \<open>Users->clientlist\<close> (in iteration order), the local server's configuration, and
  the log of effects.
\<close>

record state =
  heap :: "addr \<Rightarrow> TreeServer option"
  TreeRoot :: "addr option"
  serverlist :: "string \<Rightarrow> addr option"
  sidlist :: "string \<Rightarrow> addr option"
  PingFreq :: int
  quiet_bursts :: bool
  HideSplits :: bool
  Time :: int
  Time_ns :: int
  clientlist :: "(string \<times> User) list"
  Config_ServerName :: string
  Config_ServerDesc :: string
  Config_SID :: string
  Config_Version :: string
  events :: "event list"

subsection \<open>Field access through a pointer\<close>

definition modify :: "addr \<Rightarrow> (TreeServer \<Rightarrow> TreeServer) \<Rightarrow> state \<Rightarrow> error + state" where
  "modify this f s =
     (case heap s this of
        None \<Rightarrow> Inl UseAfterFree
      | Some n \<Rightarrow> Inr (s\<lparr>heap := (heap s)(this \<mapsto> f n)\<rparr>))"

definition emit :: "event \<Rightarrow> state \<Rightarrow> state" where
  "emit e s = s\<lparr>events := events s @ [e]\<rparr>"

subsection \<open>Keepalive state\<close>

definition SetNextPingTime :: "addr \<Rightarrow> int \<Rightarrow> state \<Rightarrow> error + state" where
  "SetNextPingTime this t s =
     modify this (\<lambda>n. n\<lparr>NextPing := t, LastPingWasGood := False\<rparr>) s"

definition NextPingTime :: "addr \<Rightarrow> state \<Rightarrow> error + (int \<times> state)" where
  "NextPingTime this s =
     (case heap s this of None \<Rightarrow> Inl UseAfterFree | Some n \<Rightarrow> Inr (NextPing n, s))"

definition AnsweredLastPing :: "addr \<Rightarrow> state \<Rightarrow> error + (bool \<times> state)" where
  "AnsweredLastPing this s =
     (case heap s this of None \<Rightarrow> Inl UseAfterFree | Some n \<Rightarrow> Inr (LastPingWasGood n, s))"

definition SetPingFlag :: "addr \<Rightarrow> state \<Rightarrow> error + state" where
  "SetPingFlag this s = modify this (\<lambda>n. n\<lparr>LastPingWasGood := True\<rparr>) s"

subsection \<open>The Topology Index\<close>

definition AddHashEntry :: "addr \<Rightarrow> state \<Rightarrow> error + state" where
  "AddHashEntry this s =
     (case heap s this of
        None \<Rightarrow> Inl UseAfterFree
      | Some n \<Rightarrow>
          Inr (s\<lparr>serverlist := (serverlist s)(ServerName n \<mapsto> this),
                 sidlist := (sidlist s)(sid n \<mapsto> this)\<rparr>))"

subsection \<open>Printing\<close>

text \<open>\<open>%lu\<close>: an unsigned number in decimal.\<close>

definition digit :: "nat \<Rightarrow> char" where
  "digit d = ''0123456789'' ! d"

fun show_nat :: "nat \<Rightarrow> string" where
  "show_nat n =
     (if n < 10 then [digit n]
      else show_nat (n div 10) @ [digit (n mod 10)])"

declare show_nat.simps [simp del]

text \<open>A \<open>long\<close> or \<open>unsigned long\<close> is taken as 64 bits wide (LP64).\<close>

definition to_ulong :: "int \<Rightarrow> nat" where
  "to_ulong i = nat (i mod 2 ^ 64)"

definition clock_ms :: "state \<Rightarrow> int" where
  "clock_ms s = Time s * 1000 + (Time_ns s sdiv 1000000)"

subsection \<open>Construction\<close>

text \<open>
  The root constructor. It leaves \<open>NextPing\<close> and \<open>LastPingWasGood\<close> uninitialised;
  the values the memory happens to hold are the parameters \<open>np\<close> and \<open>lp\<close>.
\<close>

definition TreeServer_root :: "addr \<Rightarrow> int \<Rightarrow> bool \<Rightarrow> state \<Rightarrow> error + state" where
  "TreeServer_root this np lp s =
     AddHashEntry this
       (s\<lparr>heap := (heap s)(this \<mapsto>
            \<lparr>Parent = None, Route = None, Children = [],
             ServerName = Config_ServerName s, ServerDesc = Config_ServerDesc s,
             VersionString = Config_Version s, Socket = None, sid = Config_SID s,
             ServerUser = FakeClient, age = Time s, Warned = False, bursting = False,
             UserCount = 0, OperCount = 0, rtt = 0, StartBurst = 0, Hidden = False,
             NextPing = np, LastPingWasGood = lp\<rparr>)\<rparr>)"

text \<open>
  The loop \<open>while (this->Route->GetParent() != Utils->TreeRoot) this->Route =
  Route->GetParent();\<close> on the value of \<open>this->Route\<close>. It reads only \<open>Parent\<close>
  fields, which it does not write. It may dereference \<open>NULL\<close> or run forever.
\<close>

partial_function (option) find_route ::
  "(addr \<Rightarrow> TreeServer option) \<Rightarrow> addr option \<Rightarrow> addr option \<Rightarrow> (error + addr option) option"
where
  "find_route h root r =
     (case r of
        None \<Rightarrow> Some (Inl NullDeref)
      | Some a \<Rightarrow>
          (case h a of
             None \<Rightarrow> Some (Inl UseAfterFree)
           | Some n \<Rightarrow>
               if Parent n \<noteq> root then find_route h root (Parent n)
               else Some (Inr r)))"

text \<open>
  The child constructor, run on memory that \<open>new\<close> has just handed out. The member
  initialisers leave \<open>Route\<close>, \<open>StartBurst\<close>, \<open>NextPing\<close> and \<open>LastPingWasGood\<close>
  unset; the body writes each of them before anything reads it, so the model starts
  them at fixed values.
\<close>

definition TreeServer_child ::
  "addr \<Rightarrow> string \<Rightarrow> string \<Rightarrow> string \<Rightarrow> addr option \<Rightarrow> sockref option \<Rightarrow> bool \<Rightarrow>
   state \<Rightarrow> (error + state) option"
where
  "TreeServer_child this Name Desc id' Above' Sock Hide s =
     (let s0 = s\<lparr>heap := (heap s)(this \<mapsto>
                  \<lparr>Parent = Above', Route = None, Children = [],
                   ServerName = Name, ServerDesc = Desc, VersionString = [],
                   Socket = Sock, sid = id', ServerUser = FakeUser id' Name,
                   age = Time s, Warned = False, bursting = True,
                   UserCount = 0, OperCount = 0, rtt = 0, StartBurst = 0,
                   Hidden = Hide, NextPing = 0, LastPingWasGood = False\<rparr>)\<rparr>
      in case SetNextPingTime this (Time s0 + PingFreq s0) s0 of
           Inl e \<Rightarrow> Some (Inl e)
         | Inr s1 \<Rightarrow>
        (case SetPingFlag this s1 of
           Inl e \<Rightarrow> Some (Inl e)
         | Inr s2 \<Rightarrow>
        (let ts = clock_ms s2 in
         case modify this (\<lambda>n. n\<lparr>StartBurst := ts\<rparr>) s2 of
           Inl e \<Rightarrow> Some (Inl e)
         | Inr s3 \<Rightarrow>
        (let s4 = emit (LogDebug (''Server '' @ id' @ '' started bursting at time ''
                                   @ show_nat (to_ulong ts))) s3 in
         case (if Above' = TreeRoot s4 then Some (Inr (Some this))
               else find_route (heap s4) (TreeRoot s4) Above') of
           None \<Rightarrow> None
         | Some (Inl e) \<Rightarrow> Some (Inl e)
         | Some (Inr r) \<Rightarrow>
        (case modify this (\<lambda>n. n\<lparr>Route := r\<rparr>) s4 of
           Inl e \<Rightarrow> Some (Inl e)
         | Inr s5 \<Rightarrow> Some (AddHashEntry this s5))))))"

subsection \<open>Accessors and child lists\<close>

definition GetRoute :: "addr \<Rightarrow> state \<Rightarrow> error + (addr option \<times> state)" where
  "GetRoute this s =
     (case heap s this of None \<Rightarrow> Inl UseAfterFree | Some n \<Rightarrow> Inr (Route n, s))"

definition GetParent :: "addr \<Rightarrow> state \<Rightarrow> error + (addr option \<times> state)" where
  "GetParent this s =
     (case heap s this of None \<Rightarrow> Inl UseAfterFree | Some n \<Rightarrow> Inr (Parent n, s))"

definition SetVersion :: "addr \<Rightarrow> string \<Rightarrow> state \<Rightarrow> error + state" where
  "SetVersion this Version s = modify this (\<lambda>n. n\<lparr>VersionString := Version\<rparr>) s"

definition AddChild :: "addr \<Rightarrow> addr \<Rightarrow> state \<Rightarrow> error + state" where
  "AddChild this Child s = modify this (\<lambda>n. n\<lparr>Children := Children n @ [Child]\<rparr>) s"

definition DelChild :: "addr \<Rightarrow> addr \<Rightarrow> state \<Rightarrow> error + (bool \<times> state)" where
  "DelChild this Child s =
     (case heap s this of
        None \<Rightarrow> Inl UseAfterFree
      | Some n \<Rightarrow>
          if Child \<in> set (Children n)
          then Inr (True, s\<lparr>heap := (heap s)(this \<mapsto> n\<lparr>Children := remove1 Child (Children n)\<rparr>)\<rparr>)
          else Inr (False, s))"

subsection \<open>Finishing a burst\<close>

text \<open>
  \<open>FinishBurstInternal\<close> calls itself on every child. The first argument bounds the
  depth of the calls: \<open>None\<close> is a run that needs more than that.
\<close>

fun FinishBurstInternal :: "nat \<Rightarrow> addr \<Rightarrow> state \<Rightarrow> (error + state) option"
  and FinishBurstChildren :: "nat \<Rightarrow> addr list \<Rightarrow> state \<Rightarrow> (error + state) option"
where
  "FinishBurstInternal 0 this s = None"
| "FinishBurstInternal (Suc k) this s =
     (case modify this (\<lambda>n. n\<lparr>bursting := False\<rparr>) s of
        Inl e \<Rightarrow> Some (Inl e)
      | Inr s1 \<Rightarrow>
     (case SetNextPingTime this (Time s1 + PingFreq s1) s1 of
        Inl e \<Rightarrow> Some (Inl e)
      | Inr s2 \<Rightarrow>
     (case SetPingFlag this s2 of
        Inl e \<Rightarrow> Some (Inl e)
      | Inr s3 \<Rightarrow>
     (case heap s3 this of
        None \<Rightarrow> Some (Inl UseAfterFree)
      | Some n \<Rightarrow> FinishBurstChildren k (Children n) s3))))"
| "FinishBurstChildren k [] s = Some (Inr s)"
| "FinishBurstChildren k (child # rest) s =
     (case FinishBurstInternal k child s of
        None \<Rightarrow> None
      | Some (Inl e) \<Rightarrow> Some (Inl e)
      | Some (Inr s') \<Rightarrow> FinishBurstChildren k rest s')"

definition burst_notice :: "string \<Rightarrow> nat \<Rightarrow> string" where
  "burst_notice name bursttime =
     ''Received end of netburst from '' @ [CHR 0x02] @ name @ [CHR 0x02]
       @ '' (burst time: ''
       @ show_nat (if bursttime > 10000 then bursttime div 1000 else bursttime)
       @ '' '' @ (if bursttime > 10000 then ''secs'' else ''msecs'') @ '')''"

definition FinishBurst :: "nat \<Rightarrow> addr \<Rightarrow> state \<Rightarrow> (error + state) option" where
  "FinishBurst k this s =
     (case FinishBurstInternal k this s of
        None \<Rightarrow> None
      | Some (Inl e) \<Rightarrow> Some (Inl e)
      | Some (Inr s1) \<Rightarrow>
          (let s2 = emit ApplyLines s1;
               ts = clock_ms s2
           in case heap s2 this of
                None \<Rightarrow> Some (Inl UseAfterFree)
              | Some n \<Rightarrow>
                  (let bursttime = to_ulong (ts - StartBurst n);
                       s3 = emit (SnoNotice
                                    (if Parent n = TreeRoot s2 then CHR ''l'' else CHR ''L'')
                                    (burst_notice (ServerName n) bursttime)) s2
                   in Some (Inr (emit (ServerEvent (ServerName n)) s3)))))"

subsection \<open>Quitting the users of a server\<close>

text \<open>
  Modelled from the spec: \<open>UserManager::QuitUser\<close> (usermanager.cpp) is not part of
  the sources at hand. It disconnects the user: the user leaves the registry, where it
  is filed under its nick, and the quit goes out with the reasons given.
\<close>

definition Users_QuitUser :: "User \<Rightarrow> string \<Rightarrow> string option \<Rightarrow> state \<Rightarrow> state" where
  "Users_QuitUser a quitreason operreason s =
     emit (QuitUser a quitreason operreason)
       (s\<lparr>clientlist := filter (\<lambda>(k, u). k \<noteq> nick a) (clientlist s)\<rparr>)"

text \<open>The body of the second loop of \<open>QuitUsers\<close>, for one element of \<open>time_to_die\<close>.\<close>

definition quit_one :: "string \<Rightarrow> User \<Rightarrow> state \<Rightarrow> state" where
  "quit_one reason a s =
     (if \<not> is_local a then
        (let a' = (if quiet_bursts s then a\<lparr>quietquit := True\<rparr> else a)
         in if HideSplits s then Users_QuitUser a' ''*.net *.split'' (Some reason) s
            else Users_QuitUser a' reason None s)
      else s)"

definition QuitUsers :: "addr \<Rightarrow> string \<Rightarrow> state \<Rightarrow> error + (int \<times> state)" where
  "QuitUsers this reason s =
     (case heap s this of
        None \<Rightarrow> Inl UseAfterFree
      | Some n \<Rightarrow>
          (let time_to_die = filter (\<lambda>u. server u = ServerName n) (map snd (clientlist s))
           in Inr (int (length time_to_die), fold (quit_one reason) time_to_die s)))"

subsection \<open>Destruction\<close>

text \<open>
  Modelled from the spec: \<open>IsRoot()\<close> is declared in treeserver.h, which is not part of
  the sources at hand. The parent reference is null only for the local root.
\<close>

definition IsRoot :: "TreeServer \<Rightarrow> bool" where
  "IsRoot n \<longleftrightarrow> Parent n = None"

definition cull :: "addr \<Rightarrow> state \<Rightarrow> error + state" where
  "cull this s =
     (case heap s this of
        None \<Rightarrow> Inl UseAfterFree
      | Some n \<Rightarrow> Inr (if \<not> IsRoot n then emit (CullServerUser (ServerUser n)) s else s))"

text \<open>\<open>delete s\<close>: the destructor, then the memory is released.\<close>

definition delete_TreeServer :: "addr \<Rightarrow> state \<Rightarrow> error + state" where
  "delete_TreeServer this s =
     (case heap s this of
        None \<Rightarrow> Inl UseAfterFree
      | Some n \<Rightarrow>
          (let s1 = (if \<not> IsRoot n then emit (DeleteServerUser (ServerUser n)) s else s);
               s2 = s1\<lparr>sidlist := (sidlist s1)(sid n := None)\<rparr>;
               s3 = s2\<lparr>serverlist := (serverlist s2)(ServerName n := None)\<rparr>
           in Inr (emit (Destroyed this) (s3\<lparr>heap := (heap s3)(this := None)\<rparr>))))"

text \<open>
  \<open>Tidy\<close>: the first argument bounds the number of calls and loop rounds on any
  path of the run; \<open>None\<close> is a run that needs more. \<open>Children.erase(a)\<close> erases
  the element the iterator was taken at, the first one: only a \<open>Tidy\<close> on \<open>this\<close>
  writes that list, and one nested in the recursive call would need \<open>this\<close> below
  itself, where the calls never end.
\<close>

fun Tidy :: "nat \<Rightarrow> addr \<Rightarrow> state \<Rightarrow> (error + state) option" where
  "Tidy 0 this s = None"
| "Tidy (Suc k) this s =
     (case heap s this of
        None \<Rightarrow> Some (Inl UseAfterFree)
      | Some n \<Rightarrow>
          (case Children n of
             [] \<Rightarrow> Some (Inr s)
           | c # _ \<Rightarrow>
               (case Tidy k c s of
                  None \<Rightarrow> None
                | Some (Inl e) \<Rightarrow> Some (Inl e)
                | Some (Inr s1) \<Rightarrow>
               (case cull c s1 of
                  Inl e \<Rightarrow> Some (Inl e)
                | Inr s2 \<Rightarrow>
               (case modify this (\<lambda>m. m\<lparr>Children := tl (Children m)\<rparr>) s2 of
                  Inl e \<Rightarrow> Some (Inl e)
                | Inr s3 \<Rightarrow>
               (case delete_TreeServer c s3 of
                  Inl e \<Rightarrow> Some (Inl e)
                | Inr s4 \<Rightarrow> Tidy k this s4))))))"

subsection \<open>Routes: what the constructor has to compute\<close>

definition parent_rel :: "(addr \<Rightarrow> TreeServer option) \<Rightarrow> (addr \<times> addr) set" where
  "parent_rel h = {(a, p). \<exists>n. h a = Some n \<and> Parent n = Some p}"

definition is_route :: "(addr \<Rightarrow> TreeServer option) \<Rightarrow> addr \<Rightarrow> addr \<Rightarrow> addr \<Rightarrow> bool" where
  "is_route h r a x \<longleftrightarrow> (a, x) \<in> (parent_rel h)\<^sup>* \<and> (x, r) \<in> parent_rel h"

definition routes_inv :: "state \<Rightarrow> bool" where
  "routes_inv s \<longleftrightarrow>
     (\<exists>r rn. TreeRoot s = Some r \<and> heap s r = Some rn \<and> Parent rn = None \<and>
        (\<forall>a n. heap s a = Some n \<longrightarrow> a \<noteq> r \<longrightarrow>
           (\<exists>x. Route n = Some x \<and> is_route (heap s) r a x)))"

text \<open>The node and the state a successful child construction ends with.\<close>

definition child_node ::
  "state \<Rightarrow> string \<Rightarrow> string \<Rightarrow> string \<Rightarrow> addr option \<Rightarrow> sockref option \<Rightarrow> bool \<Rightarrow>
   addr option \<Rightarrow> TreeServer"
where
  "child_node s Name Desc id' Above' Sock Hide r =
     \<lparr>Parent = Above', Route = r, Children = [],
      ServerName = Name, ServerDesc = Desc, VersionString = [],
      Socket = Sock, sid = id', ServerUser = FakeUser id' Name,
      age = Time s, Warned = False, bursting = True,
      UserCount = 0, OperCount = 0, rtt = 0, StartBurst = clock_ms s,
      Hidden = Hide, NextPing = Time s + PingFreq s, LastPingWasGood = True\<rparr>"

definition child_state ::
  "addr \<Rightarrow> string \<Rightarrow> string \<Rightarrow> string \<Rightarrow> addr option \<Rightarrow> sockref option \<Rightarrow> bool \<Rightarrow>
   addr option \<Rightarrow> state \<Rightarrow> state"
where
  "child_state this Name Desc id' Above' Sock Hide r s =
     s\<lparr>heap := (heap s)(this \<mapsto> child_node s Name Desc id' Above' Sock Hide r),
        events := events s @ [LogDebug (''Server '' @ id' @ '' started bursting at time ''
                                         @ show_nat (to_ulong (clock_ms s)))],
        serverlist := (serverlist s)(Name \<mapsto> this),
        sidlist := (sidlist s)(id' \<mapsto> this)\<rparr>"

subsection \<open>Subtrees and finished bursts\<close>

text \<open>
  \<open>subtree h a\<close> is \<open>a\<close> with all its descendants along the child lists.
  \<open>finished s n\<close> is a node after \<open>FinishBurstInternal\<close> has touched it.
  \<open>depth_ok k h a\<close>: the child lists below \<open>a\<close> lead to live nodes only and end
  within \<open>k\<close> levels; \<open>collect\<close> lists those nodes.
\<close>

definition child_rel :: "(addr \<Rightarrow> TreeServer option) \<Rightarrow> (addr \<times> addr) set" where
  "child_rel h = {(a, c). \<exists>n. h a = Some n \<and> c \<in> set (Children n)}"

definition subtree :: "(addr \<Rightarrow> TreeServer option) \<Rightarrow> addr \<Rightarrow> addr set" where
  "subtree h a = (child_rel h)\<^sup>* `` {a}"

definition finished :: "state \<Rightarrow> TreeServer \<Rightarrow> TreeServer" where
  "finished s n = n\<lparr>bursting := False, NextPing := Time s + PingFreq s, LastPingWasGood := True\<rparr>"

definition finish_all :: "addr set \<Rightarrow> state \<Rightarrow> state" where
  "finish_all T s =
     s\<lparr>heap := (\<lambda>x. if x \<in> T then map_option (finished s) (heap s x) else heap s x)\<rparr>"

primrec depth_ok :: "nat \<Rightarrow> (addr \<Rightarrow> TreeServer option) \<Rightarrow> addr \<Rightarrow> bool" where
  "depth_ok 0 h a = False"
| "depth_ok (Suc k) h a =
     (case h a of None \<Rightarrow> False | Some n \<Rightarrow> list_all (depth_ok k h) (Children n))"

primrec collect :: "nat \<Rightarrow> (addr \<Rightarrow> TreeServer option) \<Rightarrow> addr \<Rightarrow> addr list" where
  "collect 0 h a = []"
| "collect (Suc k) h a =
     (case h a of None \<Rightarrow> [a] | Some n \<Rightarrow> a # concat (map (collect k h) (Children n)))"

text \<open>The events a run has added to the log.\<close>

definition new_events :: "state \<Rightarrow> (error + state) option \<Rightarrow> event list" where
  "new_events s r = (case r of Some (Inr s') \<Rightarrow> drop (length (events s)) (events s') | _ \<Rightarrow> [])"

text \<open>
  Following the spec's words: the notice with the duration in seconds with one decimal
  place above 10000 ms.
\<close>

definition secs_one_decimal :: "nat \<Rightarrow> string" where
  "secs_one_decimal ms = show_nat (ms div 1000) @ ''.'' @ show_nat (ms mod 1000 div 100)"

definition spec_burst_notice :: "string \<Rightarrow> nat \<Rightarrow> string" where
  "spec_burst_notice name bursttime =
     ''Received end of netburst from '' @ [CHR 0x02] @ name @ [CHR 0x02]
       @ '' (burst time: ''
       @ (if bursttime > 10000 then secs_one_decimal bursttime @ '' secs''
          else show_nat bursttime @ '' msecs'') @ '')''"

subsection \<open>The user registry\<close>

text \<open>
  The registry is a hash map keyed by nick: no key twice, and every user filed under
  its own nick. \<open>quit_event\<close> is the quit \<open>QuitUsers\<close> sends for one user.
  \<open>result_value\<close> and \<open>result_state\<close> read the two halves of what a call returns.
\<close>

definition registry_wf :: "state \<Rightarrow> bool" where
  "registry_wf s \<longleftrightarrow>
     distinct (map fst (clientlist s)) \<and> (\<forall>(k, u) \<in> set (clientlist s). nick u = k)"

definition quit_event :: "state \<Rightarrow> string \<Rightarrow> User \<Rightarrow> event" where
  "quit_event s reason a =
     (let a' = (if quiet_bursts s then a\<lparr>quietquit := True\<rparr> else a)
      in if HideSplits s then QuitUser a' ''*.net *.split'' (Some reason)
         else QuitUser a' reason None)"

definition result_value :: "error + ('a \<times> state) \<Rightarrow> 'a option" where
  "result_value r = (case r of Inr (v, s') \<Rightarrow> Some v | Inl e \<Rightarrow> None)"

definition result_state :: "error + ('a \<times> state) \<Rightarrow> state option" where
  "result_state r = (case r of Inr (v, s') \<Rightarrow> Some s' | Inl e \<Rightarrow> None)"

subsection \<open>Subtrees as values\<close>

text \<open>
  A \<open>shape\<close> is a finite tree of addresses, each with the name and SID of its node;
  \<open>has_shape h t\<close> says that the store holds this tree at \<open>addr_of t\<close>: every node is
  live, carries that name and SID, and lists exactly the roots of its sub-shapes as
  children, in order. \<open>below t\<close> lists the strict descendants in post-order (for each
  child its own descendants, then the child); \<open>all_addrs t\<close> adds the root at the end.
  \<open>destroyed_of\<close> reads the destroyed addresses off a log, in order.
\<close>

datatype shape = Sh (addr_of: addr) (name_of: string) (sid_of: string) (kids: "shape list")

fun has_shape :: "(addr \<Rightarrow> TreeServer option) \<Rightarrow> shape \<Rightarrow> bool" where
  "has_shape h (Sh a nm i ts) =
     (case h a of
        None \<Rightarrow> False
      | Some n \<Rightarrow> ServerName n = nm \<and> sid n = i \<and> Children n = map addr_of ts
                  \<and> list_all (has_shape h) ts)"

fun below :: "shape \<Rightarrow> shape list" where
  "below (Sh a nm i ts) = concat (map (\<lambda>t. below t @ [t]) ts)"

definition all_addrs :: "shape \<Rightarrow> addr list" where
  "all_addrs t = map addr_of (below t) @ [addr_of t]"

fun destroyed_addr :: "event \<Rightarrow> addr option" where
  "destroyed_addr (Destroyed a) = Some a"
| "destroyed_addr e = None"

definition destroyed_of :: "event list \<Rightarrow> addr list" where
  "destroyed_of evs = List.map_filter destroyed_addr evs"

text \<open>
  The state \<open>Tidy\<close> on the root of \<open>t\<close> ends in: the strict descendants are gone from
  the store and their names and SIDs from the index, the root has no children, and
  \<open>evs\<close> is what went to the log. \<open>round_state\<close> is the state after one round of the
  loop, from the state \<open>s1\<close> the recursive call returned: the child \<open>c\<close>, found as \<open>nc\<close>,
  is culled, erased from the list and deleted.
\<close>

definition tidied :: "shape \<Rightarrow> event list \<Rightarrow> state \<Rightarrow> state" where
  "tidied t evs s =
     s\<lparr>heap := (\<lambda>x. if x \<in> addr_of ` set (below t) then None
                     else if x = addr_of t then map_option (\<lambda>n. n\<lparr>Children := []\<rparr>) (heap s x)
                     else heap s x),
        serverlist := (\<lambda>k. if k \<in> name_of ` set (below t) then None else serverlist s k),
        sidlist := (\<lambda>k. if k \<in> sid_of ` set (below t) then None else sidlist s k),
        events := events s @ evs\<rparr>"

definition cull_events :: "TreeServer \<Rightarrow> event list" where
  "cull_events n = (if \<not> IsRoot n then [CullServerUser (ServerUser n)] else [])"

definition delete_events :: "addr \<Rightarrow> TreeServer \<Rightarrow> event list" where
  "delete_events a n = (if \<not> IsRoot n then [DeleteServerUser (ServerUser n)] else []) @ [Destroyed a]"

definition round_state :: "addr \<Rightarrow> addr \<Rightarrow> TreeServer \<Rightarrow> state \<Rightarrow> state" where
  "round_state this c nc s1 =
     s1\<lparr>heap := (\<lambda>x. if x = c then None
                      else if x = this then map_option (\<lambda>m. m\<lparr>Children := tl (Children m)\<rparr>) (heap s1 x)
                      else heap s1 x),
         serverlist := (serverlist s1)(ServerName nc := None),
         sidlist := (sidlist s1)(sid nc := None),
         events := events s1 @ cull_events nc @ delete_events c nc\<rparr>"

text \<open>Observations of a state, and of the state a run ends in.\<close>

definition after :: "(state \<Rightarrow> 'a) \<Rightarrow> (error + state) option \<Rightarrow> 'a option" where
  "after f r = (case r of Some (Inr s') \<Rightarrow> Some (f s') | _ \<Rightarrow> None)"

definition name_entry :: "string \<Rightarrow> state \<Rightarrow> addr option" where
  "name_entry k s = serverlist s k"

definition sid_entry :: "string \<Rightarrow> state \<Rightarrow> addr option" where
  "sid_entry k s = sidlist s k"

definition children_of :: "addr \<Rightarrow> state \<Rightarrow> addr list option" where
  "children_of a s = map_option Children (heap s a)"

definition live :: "addr \<Rightarrow> state \<Rightarrow> bool" where
  "live a s \<longleftrightarrow> heap s a \<noteq> None"

text \<open>
  The Topology Index holds exactly the live nodes: a name (a SID) maps to an address
  if and only if the node at that address is live and carries that name (that SID).
\<close>

definition index_inv :: "state \<Rightarrow> bool" where
  "index_inv s \<longleftrightarrow>
     (\<forall>k a. serverlist s k = Some a \<longleftrightarrow> (\<exists>n. heap s a = Some n \<and> ServerName n = k))
     \<and> (\<forall>k a. sidlist s k = Some a \<longleftrightarrow> (\<exists>n. heap s a = Some n \<and> sid n = k))"

subsection \<open>The operations of the subsystem\<close>

text \<open>
  One constructor for every call the file offers on a running server: \<open>new\<close> of a
  child on memory not in use, each method on a node, and \<open>delete\<close>. The root is built
  once, when the process starts. \<open>exec x s s'\<close>: the call \<open>x\<close> returns from state \<open>s\<close> in
  state \<open>s'\<close>; for the recursive methods, with some fuel. \<open>execs\<close> runs a list of calls;
  \<open>alive_through a\<close> is a run in every state of which the node at \<open>a\<close> is live, that is,
  a stretch of one instance's lifetime.
\<close>

datatype op =
    NewChild addr string string string "addr option" "sockref option" bool
  | DoFinishBurst addr
  | DoFinishBurstInternal addr
  | DoQuitUsers addr string
  | DoSetNextPingTime addr int
  | DoSetPingFlag addr
  | DoNextPingTime addr
  | DoAnsweredLastPing addr
  | DoGetRoute addr
  | DoGetParent addr
  | DoSetVersion addr string
  | DoAddChild addr addr
  | DoDelChild addr addr
  | DoTidy addr
  | DoCull addr
  | Delete addr

fun exec :: "op \<Rightarrow> state \<Rightarrow> state \<Rightarrow> bool" where
  "exec (NewChild this Name Desc id' Above' Sock Hide) s s' \<longleftrightarrow>
     heap s this = None \<and> TreeServer_child this Name Desc id' Above' Sock Hide s = Some (Inr s')"
| "exec (DoFinishBurst a) s s' \<longleftrightarrow> (\<exists>k. FinishBurst k a s = Some (Inr s'))"
| "exec (DoFinishBurstInternal a) s s' \<longleftrightarrow> (\<exists>k. FinishBurstInternal k a s = Some (Inr s'))"
| "exec (DoQuitUsers a reason) s s' \<longleftrightarrow> (\<exists>c. QuitUsers a reason s = Inr (c, s'))"
| "exec (DoSetNextPingTime a t) s s' \<longleftrightarrow> SetNextPingTime a t s = Inr s'"
| "exec (DoSetPingFlag a) s s' \<longleftrightarrow> SetPingFlag a s = Inr s'"
| "exec (DoNextPingTime a) s s' \<longleftrightarrow> (\<exists>v. NextPingTime a s = Inr (v, s'))"
| "exec (DoAnsweredLastPing a) s s' \<longleftrightarrow> (\<exists>v. AnsweredLastPing a s = Inr (v, s'))"
| "exec (DoGetRoute a) s s' \<longleftrightarrow> (\<exists>v. GetRoute a s = Inr (v, s'))"
| "exec (DoGetParent a) s s' \<longleftrightarrow> (\<exists>v. GetParent a s = Inr (v, s'))"
| "exec (DoSetVersion a v) s s' \<longleftrightarrow> SetVersion a v s = Inr s'"
| "exec (DoAddChild a c) s s' \<longleftrightarrow> AddChild a c s = Inr s'"
| "exec (DoDelChild a c) s s' \<longleftrightarrow> (\<exists>b. DelChild a c s = Inr (b, s'))"
| "exec (DoTidy a) s s' \<longleftrightarrow> (\<exists>k. Tidy k a s = Some (Inr s'))"
| "exec (DoCull a) s s' \<longleftrightarrow> cull a s = Inr s'"
| "exec (Delete a) s s' \<longleftrightarrow> delete_TreeServer a s = Inr s'"

fun execs :: "op list \<Rightarrow> state \<Rightarrow> state \<Rightarrow> bool" where
  "execs [] s s' \<longleftrightarrow> s' = s"
| "execs (x # xs) s s' \<longleftrightarrow> (\<exists>s1. exec x s s1 \<and> execs xs s1 s')"

fun alive_through :: "addr \<Rightarrow> op list \<Rightarrow> state \<Rightarrow> state \<Rightarrow> bool" where
  "alive_through a [] s s' \<longleftrightarrow> s' = s \<and> heap s a \<noteq> None"
| "alive_through a (x # xs) s s' \<longleftrightarrow>
     heap s a \<noteq> None \<and> (\<exists>s1. exec x s s1 \<and> alive_through a xs s1 s')"

definition finishes :: "op \<Rightarrow> addr \<Rightarrow> bool" where
  "finishes x b \<longleftrightarrow> x = DoFinishBurst b \<or> x = DoFinishBurstInternal b"

text \<open>
  No two live nodes share a name or a SID. \<open>survivors s s1\<close>: every node of \<open>s1\<close> is a
  node of \<open>s\<close> at the same address, changed in its child list at most.
\<close>

definition distinct_ids :: "state \<Rightarrow> bool" where
  "distinct_ids s \<longleftrightarrow>
     (\<forall>a b n m. heap s a = Some n \<longrightarrow> heap s b = Some m \<longrightarrow>
        (ServerName n = ServerName m \<or> sid n = sid m) \<longrightarrow> a = b)"

definition survivors :: "state \<Rightarrow> state \<Rightarrow> bool" where
  "survivors s s1 \<longleftrightarrow>
     (\<forall>x n1. heap s1 x = Some n1 \<longrightarrow> (\<exists>n. heap s x = Some n \<and> n1\<lparr>Children := Children n\<rparr> = n))"

text \<open>The calls that create or destroy nodes.\<close>

fun changes_index :: "op \<Rightarrow> bool" where
  "changes_index (NewChild this Name Desc id' Above' Sock Hide) = True"
| "changes_index (Delete a) = True"
| "changes_index (DoTidy a) = True"
| "changes_index x = False"

subsection \<open>A small network\<close>

text \<open>
  The process before its root exists; the root at address 0; and servers linked the way
  the callers do it: \<open>new TreeServer(...)\<close>, then \<open>AddChild\<close> on the parent.
  \<open>ex_tree\<close> is root \<open>\<rightarrow>\<close> B \<open>\<rightarrow>\<close> {D \<open>\<rightarrow>\<close> F, E} at addresses 0 to 4.
\<close>

definition ex_boot :: state where
  "ex_boot =
     \<lparr>heap = Map.empty, TreeRoot = None, serverlist = Map.empty, sidlist = Map.empty,
      PingFreq = 60, quiet_bursts = False, HideSplits = False,
      Time = 1000, Time_ns = 250000000, clientlist = [],
      Config_ServerName = ''root.example'', Config_ServerDesc = ''Local'',
      Config_SID = ''001'', Config_Version = ''InspIRCd-2.0'', events = []\<rparr>"

definition link :: "addr \<Rightarrow> string \<Rightarrow> string \<Rightarrow> addr \<Rightarrow> state \<Rightarrow> state" where
  "link this Name id' parent s =
     (case TreeServer_child this Name [] id' (Some parent) None False s of
        Some (Inr s1) \<Rightarrow> (case AddChild parent this s1 of Inr s2 \<Rightarrow> s2 | Inl e \<Rightarrow> s)
      | _ \<Rightarrow> s)"

definition ex_root :: state where
  "ex_root = (case TreeServer_root 0 0 False ex_boot of Inr s \<Rightarrow> s\<lparr>TreeRoot := Some 0\<rparr> | Inl e \<Rightarrow> ex_boot)"

definition ex_B :: state where
  "ex_B = link 1 ''b.example'' ''00B'' 0 ex_root"

definition ex_tree :: state where
  "ex_tree = link 4 ''f.example'' ''00F'' 2 (link 3 ''e.example'' ''00E'' 1 (link 2 ''d.example'' ''00D'' 1 ex_B))"

text \<open>
  \<open>ex_chain\<close> is root \<open>\<rightarrow>\<close> B \<open>\<rightarrow>\<close> D; \<open>ex_late\<close> is \<open>ex_B\<close> with the clock
  12345 ms after B began its burst.
\<close>

definition ex_chain :: state where
  "ex_chain = link 2 ''d.example'' ''00D'' 1 ex_B"

definition ex_late :: state where
  "ex_late = ex_B\<lparr>Time := 1012, Time_ns := 595000000\<rparr>"

text \<open>\<open>ex_pinged\<close> is \<open>ex_B\<close> after a ping to B has been scheduled and not yet answered.\<close>

definition ex_pinged :: state where
  "ex_pinged = (case SetNextPingTime 1 1060 ex_B of Inr s \<Rightarrow> s | Inl e \<Rightarrow> ex_B)"

text \<open>
  \<open>ex_chain_pinged\<close> is \<open>ex_chain\<close> after a ping has been scheduled to B and to D and
  neither has been answered.
\<close>

definition ex_chain_pinged :: state where
  "ex_chain_pinged =
     (case SetNextPingTime 1 1060 ex_chain of
        Inl e \<Rightarrow> ex_chain
      | Inr s \<Rightarrow> (case SetNextPingTime 2 1060 s of Inl e \<Rightarrow> s | Inr s' \<Rightarrow> s'))"

text \<open>
  \<open>ex_users\<close>: five users on d.example, two of them (u2, u4) locally attached, and
  one user on b.example.
\<close>

definition ex_user :: "string \<Rightarrow> string \<Rightarrow> bool \<Rightarrow> string \<times> User" where
  "ex_user n srv loc = (n, \<lparr>nick = n, server = srv, is_local = loc, quietquit = False\<rparr>)"

definition ex_users :: state where
  "ex_users = ex_chain\<lparr>clientlist :=
     [ex_user ''u1'' ''d.example'' False, ex_user ''u2'' ''d.example'' True,
      ex_user ''u3'' ''d.example'' False, ex_user ''u4'' ''d.example'' True,
      ex_user ''u5'' ''d.example'' False, ex_user ''x1'' ''b.example'' False]\<rparr>"

text \<open>The shape of B's subtree in \<open>ex_tree\<close>.\<close>

definition ex_shape :: shape where
  "ex_shape = Sh 1 ''b.example'' ''00B''
     [Sh 2 ''d.example'' ''00D'' [Sh 4 ''f.example'' ''00F'' []],
      Sh 3 ''e.example'' ''00E'' []]"

section \<open>Proofs\<close>

subsection \<open>Routes\<close>

lemma no_parent_rtrancl:
  assumes "(r, x) \<in> (parent_rel h)\<^sup>*" and "h r = Some rn" and "Parent rn = None"
  shows "x = r"
  using assms by (induction rule: converse_rtrancl_induct) (auto simp: parent_rel_def)

lemma find_route_walk:
  assumes "(a, x) \<in> (parent_rel h)\<^sup>*" and "(x, r) \<in> parent_rel h"
    and "h r = Some rn" and "Parent rn = None"
  shows "find_route h (Some r) (Some a) = Some (Inr (Some x))"
  using assms
proof (induction rule: converse_rtrancl_induct)
  case base
  then show ?case
    by (subst find_route.simps) (auto simp: parent_rel_def)
next
  case (step a b)
  from step.hyps(1) obtain n where n: "h a = Some n" "Parent n = Some b"
    by (auto simp: parent_rel_def)
  have "b \<noteq> r"
  proof
    assume "b = r"
    with step.hyps(2) step.prems have "x = r" by (auto dest: no_parent_rtrancl)
    with step.prems show False by (auto simp: parent_rel_def)
  qed
  with n step show ?case
    by (subst find_route.simps) simp
qed

lemma is_route_unique:
  assumes "is_route h r a x" and "is_route h r a y" and "h r = Some rn" and "Parent rn = None"
  shows "y = x"
proof -
  from assms have "find_route h (Some r) (Some a) = Some (Inr (Some x))"
    by (auto simp: is_route_def intro: find_route_walk)
  moreover from assms have "find_route h (Some r) (Some a) = Some (Inr (Some y))"
    by (auto simp: is_route_def intro: find_route_walk)
  ultimately show ?thesis by simp
qed

lemma parent_rel_mono:
  assumes "h this = None"
  shows "parent_rel h \<subseteq> parent_rel (h(this \<mapsto> n))"
  using assms by (auto simp: parent_rel_def)

lemma is_route_mono:
  assumes "is_route h r a x" and "h this = None"
  shows "is_route (h(this \<mapsto> n)) r a x"
proof -
  have sub: "parent_rel h \<subseteq> parent_rel (h(this \<mapsto> n))"
    using assms(2) by (rule parent_rel_mono)
  from rtrancl_mono[OF sub] sub assms(1) show ?thesis
    unfolding is_route_def by blast
qed

lemma TreeServer_child_unfold:
  "TreeServer_child this Name Desc id' Above' Sock Hide s =
     (case (if Above' = TreeRoot s then Some (Inr (Some this))
            else find_route ((heap s)(this \<mapsto> child_node s Name Desc id' Above' Sock Hide None))
                   (TreeRoot s) Above') of
        None \<Rightarrow> None
      | Some (Inl e) \<Rightarrow> Some (Inl e)
      | Some (Inr r) \<Rightarrow> Some (Inr (child_state this Name Desc id' Above' Sock Hide r s)))"
  by (simp add: TreeServer_child_def SetNextPingTime_def SetPingFlag_def modify_def emit_def
      AddHashEntry_def clock_ms_def child_node_def child_state_def Let_def
      split: option.splits sum.splits)

lemma routes_inv_child:
  assumes inv: "routes_inv s" and r: "TreeRoot s = Some r"
    and p: "heap s p = Some pn" and fresh: "heap s this = None"
  shows "\<exists>s' n x. TreeServer_child this Name Desc id' (Some p) Sock Hide s = Some (Inr s')
           \<and> heap s' this = Some n \<and> Parent n = Some p \<and> Route n = Some x
           \<and> routes_inv s'
           \<and> is_route (heap s') r this x
           \<and> (p = r \<longrightarrow> x = this)
           \<and> (p \<noteq> r \<longrightarrow> Route pn = Some x \<and> heap s' p = Some pn)"
proof -
  from inv r obtain rn where rn: "heap s r = Some rn" "Parent rn = None"
    and others: "\<And>a n. heap s a = Some n \<Longrightarrow> a \<noteq> r \<Longrightarrow>
                   \<exists>x. Route n = Some x \<and> is_route (heap s) r a x"
    unfolding routes_inv_def by auto
  from rn fresh have r_this: "r \<noteq> this" by auto
  from p fresh have p_this: "p \<noteq> this" by auto
  define node where "node = child_node s Name Desc id' (Some p) Sock Hide"
  have node_Parent: "Parent (node q) = Some p" and node_Route: "Route (node q) = q" for q
    by (simp_all add: node_def child_node_def)
  define x where "x = (if p = r then this else the (Route pn))"
  define s' where "s' = child_state this Name Desc id' (Some p) Sock Hide (Some x) s"
  have heap': "heap s' = (heap s)(this \<mapsto> node (Some x))"
    and root': "TreeRoot s' = Some r"
    by (simp_all add: s'_def child_state_def node_def r)
  have old: "is_route (heap s') r a y" if "is_route (heap s) r a y" for a y
    unfolding heap' using that fresh by (rule is_route_mono)
  have px: "Route pn = Some x \<and> is_route (heap s) r p x" if "p \<noteq> r"
    using others[OF p that] that by (auto simp: x_def)
  have run: "TreeServer_child this Name Desc id' (Some p) Sock Hide s = Some (Inr s')"
  proof (cases "p = r")
    case True
    then show ?thesis
      by (simp add: TreeServer_child_unfold r x_def s'_def)
  next
    case False
    from px[OF False] have "is_route ((heap s)(this \<mapsto> node None)) r p x"
      using fresh by (auto intro: is_route_mono)
    then have "find_route ((heap s)(this \<mapsto> node None)) (Some r) (Some p) = Some (Inr (Some x))"
      unfolding is_route_def using rn r_this
      by (auto intro!: find_route_walk)
    with False show ?thesis
      by (simp add: TreeServer_child_unfold r s'_def node_def)
  qed
  have this_edge: "(this, p) \<in> parent_rel (heap s')"
    by (simp add: parent_rel_def heap' node_Parent)
  have route_this: "is_route (heap s') r this x"
  proof (cases "p = r")
    case True
    with this_edge show ?thesis by (simp add: is_route_def x_def)
  next
    case False
    from old[OF conjunct2[OF px[OF False]]] this_edge show ?thesis
      unfolding is_route_def by (auto intro: converse_rtrancl_into_rtrancl)
  qed
  have "routes_inv s'"
    unfolding routes_inv_def
  proof (rule exI[of _ r], rule exI[of _ rn], intro conjI allI impI)
    show "TreeRoot s' = Some r" by (rule root')
    show "heap s' r = Some rn" using rn r_this by (simp add: heap')
    show "Parent rn = None" by (rule rn)
    fix a n assume a: "heap s' a = Some n" "a \<noteq> r"
    show "\<exists>y. Route n = Some y \<and> is_route (heap s') r a y"
    proof (cases "a = this")
      case True
      with a have "n = node (Some x)" by (simp add: heap')
      with True route_this show ?thesis by (auto simp: node_Route)
    next
      case False
      with a have "heap s a = Some n" by (simp add: heap')
      from others[OF this a(2)] old show ?thesis by blast
    qed
  qed
  moreover have "heap s' this = Some (node (Some x))" by (simp add: heap')
  moreover have "heap s' p = Some pn" using p p_this by (simp add: heap')
  moreover have "p = r \<longrightarrow> x = this" by (simp add: x_def)
  ultimately show ?thesis
    using run route_this px node_Parent node_Route by blast
qed

lemmas ex_simps = ex_boot_def ex_root_def ex_B_def ex_chain_def ex_tree_def ex_late_def link_def TreeServer_root_def
  AddHashEntry_def AddChild_def modify_def TreeServer_child_unfold child_state_def child_node_def
  find_route.simps clock_ms_def to_ulong_def

text \<open>
  Claim C1. A child constructed under a live parent \<open>p\<close>, in a tree whose nodes all
  carry their route, returns; the new node's route \<open>x\<close> is the node itself when \<open>p\<close>
  is the root and the parent's stored route otherwise; \<open>x\<close> is the one ancestor of the
  new node (the node itself counted) whose parent is the root; and all nodes still
  carry their route afterwards.
\<close>

theorem C1_route_recurrence:
  assumes "routes_inv s" and "TreeRoot s = Some r"
    and "heap s p = Some pn" and "heap s this = None"
  shows "\<exists>s' n x. TreeServer_child this Name Desc id' (Some p) Sock Hide s = Some (Inr s')
           \<and> heap s' this = Some n \<and> Parent n = Some p \<and> Route n = Some x
           \<and> (p = r \<longrightarrow> x = this)
           \<and> (p \<noteq> r \<longrightarrow> Route pn = Some x \<and> heap s' p = Some pn)
           \<and> is_route (heap s') r this x
           \<and> (\<forall>y. is_route (heap s') r this y \<longrightarrow> y = x)
           \<and> routes_inv s'"
proof -
  from routes_inv_child[OF assms, of Name Desc id' Sock Hide]
  obtain s' n x where run: "TreeServer_child this Name Desc id' (Some p) Sock Hide s = Some (Inr s')"
    and n: "heap s' this = Some n" "Parent n = Some p" "Route n = Some x"
    and inv': "routes_inv s'" and route: "is_route (heap s') r this x"
    and rec: "p = r \<longrightarrow> x = this" "p \<noteq> r \<longrightarrow> Route pn = Some x \<and> heap s' p = Some pn"
    by blast
  have "TreeRoot s' = Some r"
    using run assms(2) by (auto simp: TreeServer_child_unfold child_state_def split: option.splits sum.splits if_splits)
  with inv' obtain rn' where "heap s' r = Some rn'" "Parent rn' = None"
    by (auto simp: routes_inv_def)
  with route have "\<forall>y. is_route (heap s') r this y \<longrightarrow> y = x"
    by (blast intro: is_route_unique)
  with run n inv' route rec show ?thesis by blast
qed

theorem C1_route_recurrence_witness:
  "routes_inv ex_B \<and> TreeRoot ex_B = Some 0 \<and> heap ex_B 2 = None
   \<and> (\<exists>pn. heap ex_B 1 = Some pn \<and> Route pn = Some 1)
   \<and> (\<exists>s' n. TreeServer_child 2 ''d.example'' [] ''00D'' (Some 1) None False ex_B = Some (Inr s')
          \<and> heap s' 2 = Some n \<and> Route n = Some 1)
   \<and> (\<exists>s' n. TreeServer_child 3 ''c.example'' [] ''00C'' (Some 0) None False ex_B = Some (Inr s')
          \<and> heap s' 3 = Some n \<and> Route n = Some 3)"
proof -
  have fresh3: "heap ex_B 3 = None" by (simp add: ex_simps)
  obtain rn where rn: "heap ex_B 0 = Some rn" by (simp add: ex_simps)
  have inv: "routes_inv ex_B"
    by (auto simp: routes_inv_def is_route_def parent_rel_def ex_simps)
  have root: "TreeRoot ex_B = Some 0" by (simp add: ex_simps)
  have fresh: "heap ex_B 2 = None" by (simp add: ex_simps)
  obtain pn where pn: "heap ex_B 1 = Some pn" "Route pn = Some 1"
    by (simp add: ex_simps)
  from C1_route_recurrence[OF inv root pn(1) fresh, of "''d.example''" "[]" "''00D''" None False] pn(2)
  have "\<exists>s' n. TreeServer_child 2 ''d.example'' [] ''00D'' (Some 1) None False ex_B = Some (Inr s')
          \<and> heap s' 2 = Some n \<and> Route n = Some 1"
    by auto
  moreover
  from C1_route_recurrence[OF inv root rn fresh3, of "''c.example''" "[]" "''00C''" None False]
  have "\<exists>s' n. TreeServer_child 3 ''c.example'' [] ''00C'' (Some 0) None False ex_B = Some (Inr s')
          \<and> heap s' 3 = Some n \<and> Route n = Some 3"
    by auto
  ultimately show ?thesis using inv root fresh pn by blast
qed

subsection \<open>Finishing a burst\<close>

lemma finished_idem: "finished s (finished s n) = finished s n"
  by (simp add: finished_def)

lemma finished_Children: "Children (finished s n) = Children n"
  by (simp add: finished_def)

lemma finish_all_fields:
  "Time (finish_all T s) = Time s" "PingFreq (finish_all T s) = PingFreq s"
  "events (finish_all T s) = events s" "TreeRoot (finish_all T s) = TreeRoot s"
  "serverlist (finish_all T s) = serverlist s" "sidlist (finish_all T s) = sidlist s"
  "clientlist (finish_all T s) = clientlist s"
  by (simp_all add: finish_all_def)

lemma finished_heap_update: "finished (s\<lparr>heap := h\<rparr>) = finished s"
  by (rule ext) (simp add: finished_def)

lemma heap_finish_all:
  "heap (finish_all T s) x = (if x \<in> T then map_option (finished s) (heap s x) else heap s x)"
  by (simp add: finish_all_def)

lemma finish_all_twice: "finish_all T (finish_all U s) = finish_all (U \<union> T) s"
  by (rule state.equality)
     (auto simp: finish_all_def finished_heap_update fun_eq_iff option.map_comp comp_def finished_idem)

lemma child_rel_finish_all: "child_rel (heap (finish_all T s)) = child_rel (heap s)"
  by (auto simp: child_rel_def heap_finish_all finished_Children split: if_splits)

lemma finish_one:
  assumes "heap s this = Some n"
  shows "(case modify this (\<lambda>n. n\<lparr>bursting := False\<rparr>) s of
        Inl e \<Rightarrow> Some (Inl e)
      | Inr s1 \<Rightarrow>
     (case SetNextPingTime this (Time s1 + PingFreq s1) s1 of
        Inl e \<Rightarrow> Some (Inl e)
      | Inr s2 \<Rightarrow>
     (case SetPingFlag this s2 of
        Inl e \<Rightarrow> Some (Inl e)
      | Inr s3 \<Rightarrow> F s3))) = F (finish_all {this} s)"
proof -
  have "s\<lparr>heap := (heap s)(this \<mapsto> n\<lparr>bursting := False, NextPing := Time s + PingFreq s, LastPingWasGood := True\<rparr>)\<rparr>
        = finish_all {this} s"
    using assms
    by (intro state.equality) (auto simp: finish_all_def finished_def fun_eq_iff)
  with assms show ?thesis
    by (simp add: modify_def SetNextPingTime_def SetPingFlag_def)
qed

lemma FinishBurstInternal_Suc:
  "FinishBurstInternal (Suc k) this s =
     (case heap s this of
        None \<Rightarrow> Some (Inl UseAfterFree)
      | Some n \<Rightarrow> FinishBurstChildren k (Children n) (finish_all {this} s))"
proof (cases "heap s this")
  case None
  then show ?thesis by (simp add: modify_def)
next
  case (Some n)
  have "heap (finish_all {this} s) this = Some (finished s n)"
    by (simp add: heap_finish_all Some)
  then show ?thesis
    unfolding FinishBurstInternal.simps
    by (subst finish_one[OF Some]) (simp add: Some finished_Children)
qed

declare FinishBurstInternal.simps(2) [simp del]

lemma subtree_unfold:
  assumes "h a = Some n"
  shows "subtree h a = insert a ((child_rel h)\<^sup>* `` set (Children n))"
proof -
  have step: "child_rel h `` {a} = set (Children n)"
    using assms by (auto simp: child_rel_def)
  have "(child_rel h)\<^sup>* `` {a} = insert a ((child_rel h)\<^sup>* `` (child_rel h `` {a}))"
    by (auto elim: converse_rtranclE intro: converse_rtrancl_into_rtrancl)
  then show ?thesis by (simp add: subtree_def step)
qed

lemma subtree_dead:
  assumes "h a = None"
  shows "subtree h a = {a}"
  using assms by (auto simp: subtree_def child_rel_def elim: converse_rtranclE)

lemma children_char:
  assumes internal: "\<And>a s s'. FinishBurstInternal k a s = Some (Inr s') \<Longrightarrow>
            s' = finish_all (subtree (heap s) a) s \<and> (\<forall>d \<in> subtree (heap s) a. heap s d \<noteq> None)"
    and run: "FinishBurstChildren k cs s = Some (Inr s')"
  shows "s' = finish_all ((child_rel (heap s))\<^sup>* `` set cs) s
         \<and> (\<forall>d \<in> (child_rel (heap s))\<^sup>* `` set cs. heap s d \<noteq> None)"
  using run
proof (induction cs arbitrary: s)
  case Nil
  then show ?case
    by (auto intro: state.equality simp: finish_all_def)
next
  case (Cons c rest)
  from Cons.prems obtain s1 where c: "FinishBurstInternal k c s = Some (Inr s1)"
    and rest: "FinishBurstChildren k rest s1 = Some (Inr s')"
    by (auto split: option.splits sum.splits)
  from internal[OF c] have s1: "s1 = finish_all (subtree (heap s) c) s"
    and live_c: "\<forall>d \<in> subtree (heap s) c. heap s d \<noteq> None"
    by simp_all
  have rel: "child_rel (heap s1) = child_rel (heap s)"
    by (simp add: s1 child_rel_finish_all)
  from Cons.IH[OF rest] have s': "s' = finish_all ((child_rel (heap s))\<^sup>* `` set rest) s1"
    and live_rest: "\<forall>d \<in> (child_rel (heap s))\<^sup>* `` set rest. heap s1 d \<noteq> None"
    by (simp_all add: rel)
  have split: "(child_rel (heap s))\<^sup>* `` insert c (set rest)
                 = subtree (heap s) c \<union> (child_rel (heap s))\<^sup>* `` set rest"
    by (auto simp: subtree_def)
  have "s' = finish_all ((child_rel (heap s))\<^sup>* `` set (c # rest)) s"
    by (simp add: s' s1 finish_all_twice split)
  moreover have "\<forall>d \<in> (child_rel (heap s))\<^sup>* `` insert c (set rest). heap s d \<noteq> None"
    unfolding split using live_c live_rest
    by (auto simp: s1 heap_finish_all split: if_splits)
  ultimately show ?case by simp
qed

lemma FinishBurstInternal_char:
  assumes "FinishBurstInternal k a s = Some (Inr s')"
  shows "s' = finish_all (subtree (heap s) a) s \<and> (\<forall>d \<in> subtree (heap s) a. heap s d \<noteq> None)"
  using assms
proof (induction k arbitrary: a s s')
  case 0
  then show ?case by simp
next
  case (Suc k)
  from Suc.prems obtain n where n: "heap s a = Some n"
    and kids: "FinishBurstChildren k (Children n) (finish_all {a} s) = Some (Inr s')"
    by (auto simp: FinishBurstInternal_Suc split: option.splits)
  have rel: "child_rel (heap (finish_all {a} s)) = child_rel (heap s)"
    by (rule child_rel_finish_all)
  from children_char[OF Suc.IH kids]
  have s': "s' = finish_all ((child_rel (heap s))\<^sup>* `` set (Children n)) (finish_all {a} s)"
    and live: "\<forall>d \<in> (child_rel (heap s))\<^sup>* `` set (Children n). heap (finish_all {a} s) d \<noteq> None"
    by (simp_all add: rel)
  note unf = subtree_unfold[of "heap s" a n, OF n]
  have "s' = finish_all (subtree (heap s) a) s"
    by (simp add: s' finish_all_twice unf)
  moreover have "\<forall>d \<in> subtree (heap s) a. heap s d \<noteq> None"
    using live n by (auto simp: unf heap_finish_all split: if_splits)
  ultimately show ?case by blast
qed

lemma depth_ok_finish_all:
  "depth_ok k (heap (finish_all T s)) a = depth_ok k (heap s) a"
proof (induction k arbitrary: a)
  case 0
  show ?case by simp
next
  case (Suc k)
  then have IH: "depth_ok k (heap (finish_all T s)) = depth_ok k (heap s)"
    by (intro ext)
  show ?case
  proof (cases "heap s a")
    case None
    then have "heap (finish_all T s) a = None" by (simp add: heap_finish_all)
    with None show ?thesis by (simp only: depth_ok.simps option.case)
  next
    case (Some n)
    then obtain n' where "heap (finish_all T s) a = Some n'" "Children n' = Children n"
      by (cases "a \<in> T") (simp_all add: heap_finish_all finished_Children)
    with Some show ?thesis by (simp only: depth_ok.simps option.case IH)
  qed
qed

lemma children_total:
  assumes internal: "\<And>a s. depth_ok k (heap s) a \<Longrightarrow> \<exists>s'. FinishBurstInternal k a s = Some (Inr s')"
    and ok: "list_all (depth_ok k (heap s)) cs"
  shows "\<exists>s'. FinishBurstChildren k cs s = Some (Inr s')"
  using ok
proof (induction cs arbitrary: s)
  case Nil
  show ?case by simp
next
  case (Cons c rest)
  from Cons.prems internal obtain s1 where c: "FinishBurstInternal k c s = Some (Inr s1)"
    by auto
  from FinishBurstInternal_char[OF c] have "s1 = finish_all (subtree (heap s) c) s" by simp
  with Cons.prems have "list_all (depth_ok k (heap s1)) rest"
    by (simp add: depth_ok_finish_all list_all_iff)
  from Cons.IH[OF this] c show ?case by simp
qed

lemma FinishBurstInternal_total:
  assumes "depth_ok k (heap s) a"
  shows "\<exists>s'. FinishBurstInternal k a s = Some (Inr s')"
  using assms
proof (induction k arbitrary: a s)
  case 0
  then show ?case by simp
next
  case (Suc k)
  from Suc.prems obtain n where n: "heap s a = Some n"
    and kids: "list_all (depth_ok k (heap s)) (Children n)"
    by (auto split: option.splits)
  from kids have "list_all (depth_ok k (heap (finish_all {a} s))) (Children n)"
    by (simp add: depth_ok_finish_all list_all_iff)
  from children_total[OF Suc.IH this] n show ?case
    by (simp add: FinishBurstInternal_Suc)
qed

lemma FinishBurst_result:
  assumes "FinishBurst k B s = Some (Inr s')"
  shows "\<exists>n. heap s B = Some n
           \<and> s' = emit (ServerEvent (ServerName n))
                    (emit (SnoNotice (if Parent n = TreeRoot s then CHR ''l'' else CHR ''L'')
                             (burst_notice (ServerName n) (to_ulong (clock_ms s - StartBurst n))))
                       (emit ApplyLines (finish_all (subtree (heap s) B) s)))
           \<and> (\<forall>d \<in> subtree (heap s) B. heap s d \<noteq> None)"
proof -
  from assms obtain s1 where s1: "FinishBurstInternal k B s = Some (Inr s1)"
    by (auto simp: FinishBurst_def split: option.splits sum.splits)
  from FinishBurstInternal_char[OF s1]
  have eq: "s1 = finish_all (subtree (heap s) B) s"
    and live: "\<forall>d \<in> subtree (heap s) B. heap s d \<noteq> None"
    by simp_all
  have "B \<in> subtree (heap s) B" by (simp add: subtree_def)
  with live obtain n where n: "heap s B = Some n" by auto
  with \<open>B \<in> subtree (heap s) B\<close> have n1: "heap s1 B = Some (finished s n)"
    by (simp add: eq heap_finish_all)
  have clock: "clock_ms (emit ApplyLines s1) = clock_ms s"
    by (simp add: clock_ms_def emit_def eq finish_all_def)
  have root: "TreeRoot (emit ApplyLines s1) = TreeRoot s"
    by (simp add: emit_def eq finish_all_def)
  have h2: "heap (emit ApplyLines s1) B = Some (finished s n)"
    using n1 by (simp add: emit_def)
  have fields: "StartBurst (finished s n) = StartBurst n" "Parent (finished s n) = Parent n"
    "ServerName (finished s n) = ServerName n"
    by (simp_all add: finished_def)
  from assms s1 have "s' = emit (ServerEvent (ServerName n))
                    (emit (SnoNotice (if Parent n = TreeRoot s then CHR ''l'' else CHR ''L'')
                             (burst_notice (ServerName n) (to_ulong (clock_ms s - StartBurst n))))
                       (emit ApplyLines s1))"
    by (simp add: FinishBurst_def Let_def h2 clock root fields)
  with n live eq show ?thesis by blast
qed

lemma FinishBurst_total:
  assumes "depth_ok k (heap s) B"
  shows "\<exists>s'. FinishBurst k B s = Some (Inr s')"
proof -
  from FinishBurstInternal_total[OF assms] obtain s1
    where s1: "FinishBurstInternal k B s = Some (Inr s1)" by blast
  from FinishBurstInternal_char[OF s1] have "heap s1 B \<noteq> None"
    by (auto simp: subtree_def heap_finish_all)
  with s1 show ?thesis
    by (auto simp: FinishBurst_def Let_def emit_def)
qed

lemma subtree_collect:
  assumes "depth_ok k h a"
  shows "subtree h a = set (collect k h a)"
  using assms
proof (induction k arbitrary: a)
  case 0
  then show ?case by simp
next
  case (Suc k)
  from Suc.prems obtain n where n: "h a = Some n"
    and kids: "\<forall>c \<in> set (Children n). depth_ok k h c"
    by (auto simp: list_all_iff split: option.splits)
  have "(child_rel h)\<^sup>* `` set (Children n) = (\<Union>c \<in> set (Children n). subtree h c)"
    by (auto simp: subtree_def)
  also have "\<dots> = (\<Union>c \<in> set (Children n). set (collect k h c))"
    using kids Suc.IH by simp
  finally show ?case
    by (simp add: subtree_unfold[of h a n, OF n] n)
qed

text \<open>
  Claim C2. When the child lists below \<open>B\<close> form a finite structure of live nodes,
  \<open>FinishBurst\<close> on \<open>B\<close> returns; \<open>B\<close> and every descendant end with bursting
  false, the next ping one interval ahead and the ping flag set, whatever they held
  before, and differ in nothing else; no other node changes; and the log grows by
  exactly one ban application, one notice and one event, all three for \<open>B\<close>.
\<close>

theorem C2_FinishBurst_recursive:
  assumes "depth_ok k (heap s) B"
  shows "\<exists>s' n. FinishBurst k B s = Some (Inr s') \<and> heap s B = Some n
     \<and> (\<forall>d \<in> subtree (heap s) B. \<exists>m. heap s d = Some m
            \<and> heap s' d = Some (m\<lparr>bursting := False, NextPing := Time s + PingFreq s,
                                    LastPingWasGood := True\<rparr>))
     \<and> (\<forall>x. x \<notin> subtree (heap s) B \<longrightarrow> heap s' x = heap s x)
     \<and> events s' = events s @
           [ApplyLines,
            SnoNotice (if Parent n = TreeRoot s then CHR ''l'' else CHR ''L'')
              (burst_notice (ServerName n) (to_ulong (clock_ms s - StartBurst n))),
            ServerEvent (ServerName n)]
     \<and> serverlist s' = serverlist s \<and> sidlist s' = sidlist s \<and> TreeRoot s' = TreeRoot s"
proof -
  from FinishBurst_total[OF assms] obtain s' where run: "FinishBurst k B s = Some (Inr s')"
    by blast
  from FinishBurst_result[OF run] obtain n where n: "heap s B = Some n"
    and s': "s' = emit (ServerEvent (ServerName n))
                    (emit (SnoNotice (if Parent n = TreeRoot s then CHR ''l'' else CHR ''L'')
                             (burst_notice (ServerName n) (to_ulong (clock_ms s - StartBurst n))))
                       (emit ApplyLines (finish_all (subtree (heap s) B) s)))"
    and live: "\<forall>d \<in> subtree (heap s) B. heap s d \<noteq> None"
    by blast
  have heap': "heap s' x = (if x \<in> subtree (heap s) B then map_option (finished s) (heap s x) else heap s x)" for x
    by (simp add: s' emit_def heap_finish_all)
  have "\<forall>d \<in> subtree (heap s) B. \<exists>m. heap s d = Some m
            \<and> heap s' d = Some (m\<lparr>bursting := False, NextPing := Time s + PingFreq s,
                                    LastPingWasGood := True\<rparr>)"
    using live by (auto simp: heap' finished_def)
  moreover have "\<forall>x. x \<notin> subtree (heap s) B \<longrightarrow> heap s' x = heap s x"
    by (simp add: heap')
  moreover have "events s' = events s @
           [ApplyLines,
            SnoNotice (if Parent n = TreeRoot s then CHR ''l'' else CHR ''L'')
              (burst_notice (ServerName n) (to_ulong (clock_ms s - StartBurst n))),
            ServerEvent (ServerName n)]"
    by (simp add: s' emit_def finish_all_def)
  moreover have "serverlist s' = serverlist s" "sidlist s' = sidlist s" "TreeRoot s' = TreeRoot s"
    by (simp_all add: s' emit_def finish_all_def)
  ultimately show ?thesis using run n by blast
qed

theorem C2_FinishBurst_recursive_witness:
  "depth_ok 2 (heap ex_chain) 1
   \<and> map_option bursting (heap ex_chain 1) = Some True
   \<and> map_option bursting (heap ex_chain 2) = Some True
   \<and> (\<exists>s'. FinishBurst 2 1 ex_chain = Some (Inr s')
          \<and> map_option bursting (heap s' 1) = Some False
          \<and> map_option bursting (heap s' 2) = Some False
          \<and> heap s' 0 = heap ex_chain 0
          \<and> events s' = events ex_chain @
               [ApplyLines, SnoNotice CHR ''l'' (burst_notice ''b.example'' 0),
                ServerEvent ''b.example''])"
proof -
  have ok: "depth_ok 2 (heap ex_chain) 1"
    by (simp add: numeral_2_eq_2 ex_simps)
  have B: "1 \<in> subtree (heap ex_chain) 1" by (simp add: subtree_def)
  have "(1, 2) \<in> child_rel (heap ex_chain)"
    by (simp add: child_rel_def ex_simps)
  then have D: "2 \<in> subtree (heap ex_chain) 1" by (auto simp: subtree_def)
  have "subtree (heap ex_chain) 1 = {1, 2}"
    unfolding subtree_collect[OF ok] by (simp add: numeral_2_eq_2 ex_simps)
  then have root: "0 \<notin> subtree (heap ex_chain) 1" by simp
  have before: "map_option bursting (heap ex_chain 1) = Some True"
    "map_option bursting (heap ex_chain 2) = Some True"
    by (simp_all add: ex_simps)
  have n: "heap ex_chain 1 = Some n \<Longrightarrow> Parent n = TreeRoot ex_chain \<and> ServerName n = ''b.example''
             \<and> to_ulong (clock_ms ex_chain - StartBurst n) = 0" for n
    by (auto simp: ex_simps)
  from C2_FinishBurst_recursive[OF ok] obtain s' m
    where run: "FinishBurst 2 1 ex_chain = Some (Inr s')" and m: "heap ex_chain 1 = Some m"
      and sub: "\<forall>d \<in> subtree (heap ex_chain) 1. \<exists>m. heap ex_chain d = Some m
            \<and> heap s' d = Some (m\<lparr>bursting := False, NextPing := Time ex_chain + PingFreq ex_chain,
                                    LastPingWasGood := True\<rparr>)"
      and frame: "\<forall>x. x \<notin> subtree (heap ex_chain) 1 \<longrightarrow> heap s' x = heap ex_chain x"
      and ev: "events s' = events ex_chain @
           [ApplyLines,
            SnoNotice (if Parent m = TreeRoot ex_chain then CHR ''l'' else CHR ''L'')
              (burst_notice (ServerName m) (to_ulong (clock_ms ex_chain - StartBurst m))),
            ServerEvent (ServerName m)]"
    by blast
  from sub B have "map_option bursting (heap s' 1) = Some False" by fastforce
  moreover from sub D have "map_option bursting (heap s' 2) = Some False" by fastforce
  moreover from frame root have "heap s' 0 = heap ex_chain 0" by blast
  moreover from ev n[OF m] have "events s' = events ex_chain @
               [ApplyLines, SnoNotice CHR ''l'' (burst_notice ''b.example'' 0),
                ServerEvent ''b.example'']" by simp
  ultimately have "\<exists>s'. FinishBurst 2 1 ex_chain = Some (Inr s')
          \<and> map_option bursting (heap s' 1) = Some False
          \<and> map_option bursting (heap s' 2) = Some False
          \<and> heap s' 0 = heap ex_chain 0
          \<and> events s' = events ex_chain @
               [ApplyLines, SnoNotice CHR ''l'' (burst_notice ''b.example'' 0),
                ServerEvent ''b.example'']"
    using run by blast
  with ok before show ?thesis by blast
qed

text \<open>
  Claim C5, as amended. On a finite subtree of live nodes \<open>FinishBurst\<close> returns and
  logs one notice between the ban application and the event. Its text reports the
  elapsed time in whole seconds (the milliseconds divided by 1000, the remainder
  dropped) when it exceeds 10000 ms and in milliseconds otherwise, and is worded the
  same wherever the node hangs; the notice goes to snomask \<open>l\<close> when the node's parent is
  the root and to snomask \<open>L\<close> otherwise.
\<close>

theorem C5_burst_notice:
  assumes "depth_ok k (heap s) B" and "heap s B = Some n"
  shows "\<exists>s'. FinishBurst k B s = Some (Inr s')
     \<and> new_events s (Some (Inr s')) =
           [ApplyLines,
            SnoNotice (if Parent n = TreeRoot s then CHR ''l'' else CHR ''L'')
              (''Received end of netburst from '' @ [CHR 0x02] @ ServerName n @ [CHR 0x02]
               @ '' (burst time: ''
               @ (if to_ulong (clock_ms s - StartBurst n) > 10000
                  then show_nat (to_ulong (clock_ms s - StartBurst n) div 1000) @ '' secs''
                  else show_nat (to_ulong (clock_ms s - StartBurst n)) @ '' msecs'')
               @ '')''),
            ServerEvent (ServerName n)]"
proof -
  from FinishBurst_total[OF assms(1)] obtain s' where run: "FinishBurst k B s = Some (Inr s')"
    by blast
  from FinishBurst_result[OF run] assms(2)
  have "s' = emit (ServerEvent (ServerName n))
                    (emit (SnoNotice (if Parent n = TreeRoot s then CHR ''l'' else CHR ''L'')
                             (burst_notice (ServerName n) (to_ulong (clock_ms s - StartBurst n))))
                       (emit ApplyLines (finish_all (subtree (heap s) B) s)))"
    by auto
  then have "new_events s (Some (Inr s')) =
           [ApplyLines,
            SnoNotice (if Parent n = TreeRoot s then CHR ''l'' else CHR ''L'')
              (burst_notice (ServerName n) (to_ulong (clock_ms s - StartBurst n))),
            ServerEvent (ServerName n)]"
    by (simp add: new_events_def emit_def finish_all_def)
  with run show ?thesis
    by (auto simp: burst_notice_def)
qed

theorem C5_burst_notice_witness:
  "depth_ok 1 (heap ex_late) 1
   \<and> map_option Parent (heap ex_late 1) = Some (TreeRoot ex_late)
   \<and> map_option (\<lambda>n. to_ulong (clock_ms ex_late - StartBurst n)) (heap ex_late 1) = Some 12345
   \<and> (\<exists>s'. FinishBurst 1 1 ex_late = Some (Inr s')
        \<and> new_events ex_late (Some (Inr s')) =
             [ApplyLines,
              SnoNotice CHR ''l'' (''Received end of netburst from '' @ [CHR 0x02] @ ''b.example''
                                   @ [CHR 0x02] @ '' (burst time: 12 secs)''),
              ServerEvent ''b.example''])"
proof -
  have ok: "depth_ok 1 (heap ex_late) 1" by (simp add: ex_simps)
  obtain n where n: "heap ex_late 1 = Some n" and par: "Parent n = TreeRoot ex_late"
    and name: "ServerName n = ''b.example''"
    and bt: "to_ulong (clock_ms ex_late - StartBurst n) = 12345"
    by (simp add: ex_simps)
  from C5_burst_notice[OF ok n] par name bt
  have "\<exists>s'. FinishBurst 1 1 ex_late = Some (Inr s')
        \<and> new_events ex_late (Some (Inr s')) =
             [ApplyLines,
              SnoNotice CHR ''l'' (''Received end of netburst from '' @ [CHR 0x02] @ ''b.example''
                                   @ [CHR 0x02] @ '' (burst time: 12 secs)''),
              ServerEvent ''b.example'']"
    by (simp add: show_nat.simps digit_def)
  with ok n par bt show ?thesis by simp
qed

text \<open>
  Claim C5 as stated fails: a burst of 12345 ms is reported as \<open>12 secs\<close>, where
  seconds with one decimal place would read \<open>12.3 secs\<close>.
\<close>

theorem C5_one_decimal_counterexample:
  "new_events ex_late (FinishBurst 1 1 ex_late) =
     [ApplyLines,
      SnoNotice CHR ''l'' (''Received end of netburst from '' @ [CHR 0x02] @ ''b.example''
                           @ [CHR 0x02] @ '' (burst time: 12 secs)''),
      ServerEvent ''b.example'']
   \<and> spec_burst_notice ''b.example'' 12345 =
       ''Received end of netburst from '' @ [CHR 0x02] @ ''b.example'' @ [CHR 0x02]
       @ '' (burst time: 12.3 secs)''"
  by (simp add: new_events_def FinishBurst_def FinishBurstInternal_Suc finish_all_def finished_def
      emit_def burst_notice_def spec_burst_notice_def secs_one_decimal_def show_nat.simps digit_def
      ex_simps Let_def)

text \<open>
  Claim C10. On a tree whose nodes carry their route, the child constructor returns
  under any live parent, on memory not in use, and leaves the new node with its last
  ping answered; and so does every child constructor that returns at all. When the
  child lists below \<open>b\<close> form a finite structure of live nodes, \<open>FinishBurstInternal\<close>
  on \<open>b\<close> returns, and every node it touched (\<open>b\<close> and all its descendants) has its
  last ping answered; and so after every \<open>FinishBurstInternal\<close> that returns at all.
\<close>

theorem C10_answered_after_touch:
  "(routes_inv s \<longrightarrow> TreeRoot s = Some r \<longrightarrow> heap s p = Some pn \<longrightarrow> heap s this = None \<longrightarrow>
      (\<exists>s0. TreeServer_child this Name Desc id' (Some p) Sock Hide s = Some (Inr s0)
            \<and> AnsweredLastPing this s0 = Inr (True, s0)))
   \<and> (TreeServer_child this Name Desc id' Above' Sock Hide s = Some (Inr s1)
      \<longrightarrow> AnsweredLastPing this s1 = Inr (True, s1))
   \<and> (depth_ok k (heap s) b \<longrightarrow>
      (\<exists>s3. FinishBurstInternal k b s = Some (Inr s3)
            \<and> (\<forall>d \<in> subtree (heap s) b. AnsweredLastPing d s3 = Inr (True, s3))))
   \<and> (FinishBurstInternal k b s = Some (Inr s2)
      \<longrightarrow> (\<forall>d \<in> subtree (heap s) b. AnsweredLastPing d s2 = Inr (True, s2)))"
proof -
  have built: "AnsweredLastPing this s' = Inr (True, s')"
    if "TreeServer_child this Name Desc id' A Sock Hide s = Some (Inr s')" for A s'
  proof -
    from that obtain q where "s' = child_state this Name Desc id' A Sock Hide q s"
      by (auto simp: TreeServer_child_unfold split: option.splits sum.splits if_splits)
    then show ?thesis
      by (simp add: AnsweredLastPing_def child_state_def child_node_def)
  qed
  have touched: "AnsweredLastPing d s' = Inr (True, s')"
    if run: "FinishBurstInternal k b s = Some (Inr s')" and d: "d \<in> subtree (heap s) b" for d s'
  proof -
    from FinishBurstInternal_char[OF run] d obtain m where "heap s d = Some m"
      and "s' = finish_all (subtree (heap s) b) s"
      by auto
    with d show ?thesis
      by (simp add: AnsweredLastPing_def heap_finish_all finished_def)
  qed
  have 1: "\<exists>s0. TreeServer_child this Name Desc id' (Some p) Sock Hide s = Some (Inr s0)
            \<and> AnsweredLastPing this s0 = Inr (True, s0)"
    if "routes_inv s" "TreeRoot s = Some r" "heap s p = Some pn" "heap s this = None"
  proof -
    from routes_inv_child[OF that, of Name Desc id' Sock Hide] obtain s0
      where "TreeServer_child this Name Desc id' (Some p) Sock Hide s = Some (Inr s0)"
      by blast
    with built[OF this] show ?thesis by blast
  qed
  have 3: "\<exists>s3. FinishBurstInternal k b s = Some (Inr s3)
            \<and> (\<forall>d \<in> subtree (heap s) b. AnsweredLastPing d s3 = Inr (True, s3))"
    if "depth_ok k (heap s) b"
  proof -
    from FinishBurstInternal_total[OF that] obtain s3
      where "FinishBurstInternal k b s = Some (Inr s3)" by blast
    with touched[OF this] show ?thesis by blast
  qed
  from 1 built 3 touched show ?thesis by blast
qed

theorem C10_answered_after_touch_witness:
  "routes_inv ex_B \<and> TreeRoot ex_B = Some 0 \<and> heap ex_B 2 = None
   \<and> map_option Parent (heap ex_B 1) = Some (Some 0)
   \<and> (\<exists>s0. TreeServer_child 2 ''d.example'' [] ''00D'' (Some 1) None False ex_B = Some (Inr s0)
       \<and> AnsweredLastPing 2 s0 = Inr (True, s0))
   \<and> (\<exists>s1. TreeServer_child 1 ''b.example'' [] ''00B'' (Some 0) None False ex_root = Some (Inr s1)
       \<and> AnsweredLastPing 1 s1 = Inr (True, s1))
   \<and> depth_ok 2 (heap ex_chain_pinged) 1
   \<and> children_of 1 ex_chain_pinged = Some [2]
   \<and> AnsweredLastPing 1 ex_chain_pinged = Inr (False, ex_chain_pinged)
   \<and> AnsweredLastPing 2 ex_chain_pinged = Inr (False, ex_chain_pinged)
   \<and> (\<exists>s3. FinishBurstInternal 2 1 ex_chain_pinged = Some (Inr s3)
       \<and> AnsweredLastPing 1 s3 = Inr (True, s3) \<and> AnsweredLastPing 2 s3 = Inr (True, s3))
   \<and> (\<exists>s2. FinishBurstInternal 1 1 ex_pinged = Some (Inr s2)
       \<and> AnsweredLastPing 1 s2 = Inr (True, s2))"
proof -
  note pinged = ex_chain_pinged_def ex_pinged_def SetNextPingTime_def
  have inv: "routes_inv ex_B"
    by (auto simp: routes_inv_def is_route_def parent_rel_def ex_simps)
  have root: "TreeRoot ex_B = Some 0" and fresh: "heap ex_B 2 = None"
    by (simp_all add: ex_simps)
  obtain pn where pn: "heap ex_B 1 = Some pn" and par: "Parent pn = Some 0"
    by (simp add: ex_simps)
  from C10_answered_after_touch[THEN conjunct1, rule_format, OF inv root pn fresh,
      of "''d.example''" "[]" "''00D''" None False]
  have p0: "\<exists>s0. TreeServer_child 2 ''d.example'' [] ''00D'' (Some 1) None False ex_B = Some (Inr s0)
       \<and> AnsweredLastPing 2 s0 = Inr (True, s0)" .
  obtain s1 where r1: "TreeServer_child 1 ''b.example'' [] ''00B'' (Some 0) None False ex_root = Some (Inr s1)"
    by (simp add: TreeServer_child_unfold ex_root_def ex_boot_def TreeServer_root_def AddHashEntry_def)
  from C10_answered_after_touch[THEN conjunct2, THEN conjunct1, rule_format, OF r1]
  have p1: "AnsweredLastPing 1 s1 = Inr (True, s1)" .
  have ok: "depth_ok 2 (heap ex_chain_pinged) 1"
    by (simp add: numeral_2_eq_2 pinged ex_simps)
  have kids: "children_of 1 ex_chain_pinged = Some [2]"
    by (simp add: children_of_def pinged ex_simps)
  have before: "AnsweredLastPing 1 ex_chain_pinged = Inr (False, ex_chain_pinged)"
    "AnsweredLastPing 2 ex_chain_pinged = Inr (False, ex_chain_pinged)"
    by (simp_all add: AnsweredLastPing_def pinged ex_simps)
  have B: "1 \<in> subtree (heap ex_chain_pinged) 1" by (simp add: subtree_def)
  have "(1, 2) \<in> child_rel (heap ex_chain_pinged)"
    by (simp add: child_rel_def pinged ex_simps)
  then have D: "2 \<in> subtree (heap ex_chain_pinged) 1" by (auto simp: subtree_def)
  from C10_answered_after_touch[THEN conjunct2, THEN conjunct2, THEN conjunct1, rule_format, OF ok]
  obtain s3 where r3: "FinishBurstInternal 2 1 ex_chain_pinged = Some (Inr s3)"
    and all3: "\<forall>d \<in> subtree (heap ex_chain_pinged) 1. AnsweredLastPing d s3 = Inr (True, s3)"
    by blast
  from all3 B D have p3: "AnsweredLastPing 1 s3 = Inr (True, s3)" "AnsweredLastPing 2 s3 = Inr (True, s3)"
    by blast+
  have "depth_ok 1 (heap ex_pinged) 1"
    by (simp add: pinged ex_simps)
  from FinishBurstInternal_total[OF this]
  obtain s2 where r2: "FinishBurstInternal 1 1 ex_pinged = Some (Inr s2)" by blast
  have B2: "1 \<in> subtree (heap ex_pinged) 1" by (simp add: subtree_def)
  from C10_answered_after_touch[THEN conjunct2, THEN conjunct2, THEN conjunct2, rule_format, OF r2 B2]
  have p2: "AnsweredLastPing 1 s2 = Inr (True, s2)" .
  have par': "map_option Parent (heap ex_B 1) = Some (Some 0)" using pn par by simp
  from r1 p1 have e1: "\<exists>s1. TreeServer_child 1 ''b.example'' [] ''00B'' (Some 0) None False ex_root = Some (Inr s1)
       \<and> AnsweredLastPing 1 s1 = Inr (True, s1)" by blast
  from r3 p3 have e3: "\<exists>s3. FinishBurstInternal 2 1 ex_chain_pinged = Some (Inr s3)
       \<and> AnsweredLastPing 1 s3 = Inr (True, s3) \<and> AnsweredLastPing 2 s3 = Inr (True, s3)" by blast
  from r2 p2 have e2: "\<exists>s2. FinishBurstInternal 1 1 ex_pinged = Some (Inr s2)
       \<and> AnsweredLastPing 1 s2 = Inr (True, s2)" by blast
  from inv root fresh par' p0 e1 ok kids before e3 e2 show ?thesis
    by (intro conjI)
qed

subsection \<open>Quitting the users of a server\<close>

lemma quit_one_fields:
  "quiet_bursts (quit_one reason a s) = quiet_bursts s"
  "HideSplits (quit_one reason a s) = HideSplits s"
  "heap (quit_one reason a s) = heap s"
  "serverlist (quit_one reason a s) = serverlist s"
  "sidlist (quit_one reason a s) = sidlist s"
  "TreeRoot (quit_one reason a s) = TreeRoot s"
  by (simp_all add: quit_one_def Users_QuitUser_def emit_def Let_def)

lemma quit_event_quit_one: "quit_event (quit_one reason a s) reason' = quit_event s reason'"
  by (rule ext) (simp add: quit_event_def quit_one_fields)

lemma quit_one_effect:
  "clientlist (quit_one reason a s) =
     (if is_local a then clientlist s else filter (\<lambda>(k, u). k \<noteq> nick a) (clientlist s))"
  "events (quit_one reason a s) =
     (if is_local a then events s else events s @ [quit_event s reason a])"
  by (simp_all add: quit_one_def quit_event_def Users_QuitUser_def emit_def Let_def)

lemma fold_quit_one:
  "clientlist (fold (quit_one reason) us s) =
     filter (\<lambda>(k, u). k \<notin> nick ` {a \<in> set us. \<not> is_local a}) (clientlist s)
   \<and> events (fold (quit_one reason) us s) =
     events s @ map (quit_event s reason) (filter (\<lambda>a. \<not> is_local a) us)
   \<and> heap (fold (quit_one reason) us s) = heap s
   \<and> serverlist (fold (quit_one reason) us s) = serverlist s
   \<and> sidlist (fold (quit_one reason) us s) = sidlist s
   \<and> TreeRoot (fold (quit_one reason) us s) = TreeRoot s"
proof (induction us arbitrary: s)
  case Nil
  show ?case by simp
next
  case (Cons a us)
  let ?s1 = "quit_one reason a s"
  from Cons.IH[of ?s1]
  have cl: "clientlist (fold (quit_one reason) us ?s1) =
              filter (\<lambda>(k, u). k \<notin> nick ` {a \<in> set us. \<not> is_local a}) (clientlist ?s1)"
    and ev: "events (fold (quit_one reason) us ?s1) =
              events ?s1 @ map (quit_event s reason) (filter (\<lambda>a. \<not> is_local a) us)"
    and rest: "heap (fold (quit_one reason) us ?s1) = heap s"
      "serverlist (fold (quit_one reason) us ?s1) = serverlist s"
      "sidlist (fold (quit_one reason) us ?s1) = sidlist s"
      "TreeRoot (fold (quit_one reason) us ?s1) = TreeRoot s"
    by (simp_all add: quit_event_quit_one quit_one_fields)
  have "clientlist (fold (quit_one reason) (a # us) s) =
     filter (\<lambda>(k, u). k \<notin> nick ` {b \<in> set (a # us). \<not> is_local b}) (clientlist s)"
    by (auto simp: cl quit_one_effect intro: filter_cong)
  moreover have "events (fold (quit_one reason) (a # us) s) =
     events s @ map (quit_event s reason) (filter (\<lambda>a. \<not> is_local a) (a # us))"
    by (simp add: ev quit_one_effect)
  ultimately show ?case using rest by simp
qed

lemma registry_filter:
  assumes "registry_wf s"
  shows "filter (\<lambda>(k, u). k \<notin> nick ` {a \<in> set (filter P (map snd (clientlist s))). \<not> is_local a})
           (clientlist s)
         = filter (\<lambda>(k, u). \<not> (P u \<and> \<not> is_local u)) (clientlist s)"
proof (rule filter_cong[OF refl])
  fix x assume x: "x \<in> set (clientlist s)"
  obtain k u where ku: "x = (k, u)" by (cases x)
  from assms x ku have nk: "nick u = k" by (auto simp: registry_wf_def)
  have "k \<in> nick ` {a \<in> set (filter P (map snd (clientlist s))). \<not> is_local a}
          \<longleftrightarrow> P u \<and> \<not> is_local u"
  proof
    assume "k \<in> nick ` {a \<in> set (filter P (map snd (clientlist s))). \<not> is_local a}"
    then obtain k' a where a: "(k', a) \<in> set (clientlist s)" "P a" "\<not> is_local a" "nick a = k"
      by auto
    with assms have "k' = k" by (auto simp: registry_wf_def)
    with a x ku assms have "a = u"
      by (auto simp: registry_wf_def dest: eq_key_imp_eq_value)
    with a show "P u \<and> \<not> is_local u" by simp
  next
    assume "P u \<and> \<not> is_local u"
    with x ku nk show "k \<in> nick ` {a \<in> set (filter P (map snd (clientlist s))). \<not> is_local a}"
      by force
  qed
  then show "(case x of (k, u) \<Rightarrow> k \<notin> nick ` {a \<in> set (filter P (map snd (clientlist s))). \<not> is_local a})
             = (case x of (k, u) \<Rightarrow> \<not> (P u \<and> \<not> is_local u))"
    by (simp add: ku)
qed

text \<open>
  Claim C3, as amended. On a live node and a well-formed registry, \<open>QuitUsers\<close> removes
  from the registry exactly the users whose server name is the node's name and that are
  not locally attached, sends one quit for each of them and for no one else, leaves the
  tree and the index alone, and returns the number of users whose server name is the
  node's name, the locally attached ones included.
\<close>

theorem C3_QuitUsers_scope:
  assumes "heap s N = Some n" and "registry_wf s"
  shows "\<exists>s'. QuitUsers N reason s =
            Inr (int (length (filter (\<lambda>u. server u = ServerName n) (map snd (clientlist s)))), s')
     \<and> clientlist s' =
         filter (\<lambda>(k, u). \<not> (server u = ServerName n \<and> \<not> is_local u)) (clientlist s)
     \<and> new_events s (Some (Inr s')) =
         map (quit_event s reason)
           (filter (\<lambda>u. server u = ServerName n \<and> \<not> is_local u) (map snd (clientlist s)))
     \<and> heap s' = heap s \<and> serverlist s' = serverlist s \<and> sidlist s' = sidlist s"
proof -
  define us where "us = filter (\<lambda>u. server u = ServerName n) (map snd (clientlist s))"
  define s' where "s' = fold (quit_one reason) us s"
  have run: "QuitUsers N reason s = Inr (int (length us), s')"
    by (simp add: QuitUsers_def assms(1) us_def s'_def)
  from fold_quit_one[of reason us s]
  have cl: "clientlist s' = filter (\<lambda>(k, u). k \<notin> nick ` {a \<in> set us. \<not> is_local a}) (clientlist s)"
    and ev: "events s' = events s @ map (quit_event s reason) (filter (\<lambda>a. \<not> is_local a) us)"
    and rest: "heap s' = heap s" "serverlist s' = serverlist s" "sidlist s' = sidlist s"
    by (simp_all add: s'_def)
  from cl have "clientlist s' =
         filter (\<lambda>(k, u). \<not> (server u = ServerName n \<and> \<not> is_local u)) (clientlist s)"
    unfolding us_def by (simp only: registry_filter[OF assms(2)])
  moreover from ev have "new_events s (Some (Inr s')) =
         map (quit_event s reason)
           (filter (\<lambda>u. server u = ServerName n \<and> \<not> is_local u) (map snd (clientlist s)))"
    by (simp add: new_events_def us_def conj_commute)
  ultimately show ?thesis using run rest unfolding us_def by blast
qed

theorem C3_QuitUsers_scope_witness:
  "registry_wf ex_users
   \<and> map_option ServerName (heap ex_users 2) = Some ''d.example''
   \<and> (\<exists>s'. QuitUsers 2 ''reason'' ex_users = Inr (5, s')
          \<and> map fst (clientlist s') = [''u2'', ''u4'', ''x1'']
          \<and> length (new_events ex_users (Some (Inr s'))) = 3)"
proof -
  have wf: "registry_wf ex_users"
    by (simp add: registry_wf_def ex_users_def ex_user_def)
  obtain n where n: "heap ex_users 2 = Some n" and name: "ServerName n = ''d.example''"
    by (simp add: ex_users_def ex_simps)
  from C3_QuitUsers_scope[OF n wf, of "''reason''"] obtain s'
    where run: "QuitUsers 2 ''reason'' ex_users =
            Inr (int (length (filter (\<lambda>u. server u = ServerName n) (map snd (clientlist ex_users)))), s')"
      and cl: "clientlist s' =
         filter (\<lambda>(k, u). \<not> (server u = ServerName n \<and> \<not> is_local u)) (clientlist ex_users)"
      and ev: "new_events ex_users (Some (Inr s')) =
         map (quit_event ex_users ''reason'')
           (filter (\<lambda>u. server u = ServerName n \<and> \<not> is_local u) (map snd (clientlist ex_users)))"
    by blast
  from run have "QuitUsers 2 ''reason'' ex_users = Inr (5, s')"
    by (simp add: name ex_users_def ex_user_def)
  moreover from cl have "map fst (clientlist s') = [''u2'', ''u4'', ''x1'']"
    by (simp add: name ex_users_def ex_user_def)
  moreover from ev have "length (new_events ex_users (Some (Inr s'))) = 3"
    by (simp add: name ex_users_def ex_user_def)
  ultimately have "\<exists>s'. QuitUsers 2 ''reason'' ex_users = Inr (5, s')
          \<and> map fst (clientlist s') = [''u2'', ''u4'', ''x1'']
          \<and> length (new_events ex_users (Some (Inr s'))) = 3"
    by (intro exI[of _ s'] conjI)
  with wf n name show ?thesis by simp
qed

text \<open>
  Claim C3 as stated fails: with five users on d.example, two of them locally attached,
  three users leave the registry and \<open>QuitUsers\<close> returns 5.
\<close>

theorem C3_count_counterexample:
  "map fst (clientlist ex_users) = [''u1'', ''u2'', ''u3'', ''u4'', ''u5'', ''x1'']
   \<and> map (is_local \<circ> snd) (clientlist ex_users) = [False, True, False, True, False, False]
   \<and> map (server \<circ> snd) (clientlist ex_users) =
       [''d.example'', ''d.example'', ''d.example'', ''d.example'', ''d.example'', ''b.example'']
   \<and> map_option ServerName (heap ex_users 2) = Some ''d.example''
   \<and> map_option (map fst \<circ> clientlist) (result_state (QuitUsers 2 ''reason'' ex_users))
       = Some [''u2'', ''u4'', ''x1'']
   \<and> result_value (QuitUsers 2 ''reason'' ex_users) = Some 5"
  by (simp add: result_value_def result_state_def QuitUsers_def quit_one_def Users_QuitUser_def
      emit_def ex_users_def ex_user_def ex_simps Let_def)

subsection \<open>Tidy\<close>

lemma destroyed_of_simps:
  "destroyed_of [] = []"
  "destroyed_of (xs @ ys) = destroyed_of xs @ destroyed_of ys"
  "destroyed_of (cull_events n) = []"
  "destroyed_of (delete_events a n) = [a]"
  by (simp_all add: destroyed_of_def List.map_filter_def cull_events_def delete_events_def)

lemma cull_eq:
  assumes "heap s c = Some n"
  shows "cull c s = Inr (s\<lparr>events := events s @ cull_events n\<rparr>)"
  using assms by (simp add: cull_def cull_events_def emit_def)

lemma delete_eq:
  assumes "heap s c = Some n"
  shows "delete_TreeServer c s =
     Inr (s\<lparr>heap := (heap s)(c := None),
            serverlist := (serverlist s)(ServerName n := None),
            sidlist := (sidlist s)(sid n := None),
            events := events s @ delete_events c n\<rparr>)"
  using assms by (simp add: delete_TreeServer_def delete_events_def emit_def Let_def)

lemma Tidy_round:
  assumes live: "heap s this = Some n" and kids: "Children n = c # rest"
    and sub: "Tidy k c s = Some (Inr s1)"
    and c1: "heap s1 c = Some nc" and this1: "heap s1 this = Some n1" and ne: "c \<noteq> this"
  shows "Tidy (Suc k) this s = Tidy k this (round_state this c nc s1)"
proof -
  let ?s2 = "s1\<lparr>events := events s1 @ cull_events nc\<rparr>"
  let ?s3 = "?s2\<lparr>heap := (heap ?s2)(this \<mapsto> n1\<lparr>Children := tl (Children n1)\<rparr>)\<rparr>"
  have 2: "cull c s1 = Inr ?s2" by (rule cull_eq[OF c1])
  have 3: "modify this (\<lambda>m. m\<lparr>Children := tl (Children m)\<rparr>) ?s2 = Inr ?s3"
    by (simp add: modify_def this1)
  have c3: "heap ?s3 c = Some nc" using c1 ne by simp
  from delete_eq[OF c3]
  have 4: "delete_TreeServer c ?s3 = Inr (round_state this c nc s1)"
    by (auto intro!: state.equality simp: round_state_def this1 fun_eq_iff)
  show ?thesis
    by (simp only: Tidy.simps live kids sub 2 3 4 option.case list.case sum.case)
qed

lemma all_addrs_Sh:
  "all_addrs (Sh a nm i []) = [a]"
  "all_addrs (Sh a nm i (c # cs)) = all_addrs c @ butlast (all_addrs (Sh a nm i cs)) @ [a]"
  by (simp_all add: all_addrs_def)

lemma below_Cons:
  "below (Sh a nm i (c # cs)) = below c @ [c] @ below (Sh a nm i cs)"
  by simp

lemma all_addrs_kid:
  assumes "t \<in> set ts"
  shows "set (all_addrs t) \<subseteq> addr_of ` set (below (Sh a nm i ts))"
  using assms by (auto simp: all_addrs_def)

lemma has_shape_cong:
  assumes "\<forall>x \<in> set (all_addrs t). h x = h' x" and "has_shape h t"
  shows "has_shape h' t"
  using assms
proof (induction t)
  case (Sh a nm i ts)
  from Sh.prems(1) have a: "h' a = h a" by (simp add: all_addrs_def)
  have "has_shape h' t" if t: "t \<in> set ts" for t
  proof (rule Sh.IH[OF t])
    from all_addrs_kid[OF t, of a nm i] Sh.prems(1)
    show "\<forall>x \<in> set (all_addrs t). h x = h' x" by (auto simp: all_addrs_def)
    from Sh.prems(2) t show "has_shape h t"
      by (auto simp: list_all_iff split: option.splits)
  qed
  with Sh.prems(2) show ?case
    by (auto simp: a list_all_iff split: option.splits)
qed

lemma tidied_leaf:
  assumes "heap s a = Some n" and "Children n = []"
  shows "tidied (Sh a nm i []) [] s = s"
  using assms by (intro state.equality) (auto simp: tidied_def fun_eq_iff)

lemma tidied_compose:
  assumes "ServerName nc = name_of c" and "sid nc = sid_of c" and "a \<notin> set (all_addrs c)"
  shows "tidied (Sh a nm i cs) evs' (round_state a (addr_of c) nc (tidied c evs1 s))
         = tidied (Sh a nm i (c # cs)) (evs1 @ cull_events nc @ delete_events (addr_of c) nc @ evs') s"
proof (rule state.equality)
  show "heap (tidied (Sh a nm i cs) evs' (round_state a (addr_of c) nc (tidied c evs1 s)))
        = heap (tidied (Sh a nm i (c # cs)) (evs1 @ cull_events nc @ delete_events (addr_of c) nc @ evs') s)"
    using assms(3)
    by (auto simp: tidied_def round_state_def fun_eq_iff all_addrs_def option.map_comp comp_def
             simp del: below.simps simp add: below_Cons)
  show "serverlist (tidied (Sh a nm i cs) evs' (round_state a (addr_of c) nc (tidied c evs1 s)))
        = serverlist (tidied (Sh a nm i (c # cs)) (evs1 @ cull_events nc @ delete_events (addr_of c) nc @ evs') s)"
    using assms(1)
    by (auto simp: tidied_def round_state_def fun_eq_iff simp del: below.simps simp add: below_Cons)
  show "sidlist (tidied (Sh a nm i cs) evs' (round_state a (addr_of c) nc (tidied c evs1 s)))
        = sidlist (tidied (Sh a nm i (c # cs)) (evs1 @ cull_events nc @ delete_events (addr_of c) nc @ evs') s)"
    using assms(2)
    by (auto simp: tidied_def round_state_def fun_eq_iff simp del: below.simps simp add: below_Cons)
qed (simp_all add: tidied_def round_state_def)

lemma heap_tidied:
  "heap (tidied t evs s) x =
     (if x \<in> addr_of ` set (below t) then None
      else if x = addr_of t then map_option (\<lambda>n. n\<lparr>Children := []\<rparr>) (heap s x)
      else heap s x)"
  by (simp add: tidied_def)

lemma heap_round_state:
  "heap (round_state this c nc s1) x =
     (if x = c then None
      else if x = this then map_option (\<lambda>m. m\<lparr>Children := tl (Children m)\<rparr>) (heap s1 x)
      else heap s1 x)"
  by (simp add: round_state_def)

lemma Tidy_kids:
  assumes kids: "\<And>t s k. t \<in> set ts \<Longrightarrow> has_shape (heap s) t \<Longrightarrow> distinct (all_addrs t) \<Longrightarrow>
              Suc (length (below t)) \<le> k \<Longrightarrow>
              \<exists>evs. Tidy k (addr_of t) s = Some (Inr (tidied t evs s))
                    \<and> destroyed_of evs = map addr_of (below t)"
    and shape: "has_shape (heap s) (Sh a nm i ts)"
    and dist: "distinct (all_addrs (Sh a nm i ts))"
    and fuel: "Suc (length (below (Sh a nm i ts))) \<le> k"
  shows "\<exists>evs. Tidy k a s = Some (Inr (tidied (Sh a nm i ts) evs s))
               \<and> destroyed_of evs = map addr_of (below (Sh a nm i ts))"
  using kids shape dist fuel
proof (induction ts arbitrary: s k)
  case Nil
  from Nil.prems(2) obtain n where n: "heap s a = Some n" "Children n = []"
    by (auto split: option.splits)
  from Nil.prems(4) obtain k' where k: "k = Suc k'" by (cases k) auto
  have "Tidy k a s = Some (Inr (tidied (Sh a nm i []) [] s))"
    by (simp add: k n tidied_leaf[OF n])
  then show ?case
    by (intro exI[of _ "[]"]) (simp add: destroyed_of_simps)
next
  case (Cons c cs)
  from Cons.prems(2) obtain n where n: "heap s a = Some n" "Children n = addr_of c # map addr_of cs"
    "ServerName n = nm" "sid n = i"
    and shape_c: "has_shape (heap s) c" and shape_cs: "list_all (has_shape (heap s)) cs"
    by (auto split: option.splits)
  from Cons.prems(3) have dist_c: "distinct (all_addrs c)"
    and dist_cs: "distinct (all_addrs (Sh a nm i cs))"
    and a_c: "a \<notin> set (all_addrs c)"
    and disj: "set (all_addrs c) \<inter> set (all_addrs (Sh a nm i cs)) = {}"
    by (auto simp: all_addrs_def)
  from Cons.prems(4) obtain k' where k: "k = Suc k'"
    and fuel_c: "Suc (length (below c)) \<le> k'"
    and fuel_cs: "Suc (length (below (Sh a nm i cs))) \<le> k'"
    by (cases k) auto
  from Cons.prems(1)[OF _ shape_c dist_c fuel_c] obtain evs1
    where run_c: "Tidy k' (addr_of c) s = Some (Inr (tidied c evs1 s))"
      and log_c: "destroyed_of evs1 = map addr_of (below c)"
    by auto
  from shape_c obtain nc where nc: "heap s (addr_of c) = Some nc"
    "ServerName nc = name_of c" "sid nc = sid_of c"
    by (cases c) (auto split: option.splits)
  let ?s1 = "tidied c evs1 s"
  let ?nc = "nc\<lparr>Children := []\<rparr>"
  from dist_c nc have c1: "heap ?s1 (addr_of c) = Some ?nc"
    by (auto simp: heap_tidied all_addrs_def)
  from a_c n have a1: "heap ?s1 a = Some n"
    by (auto simp: heap_tidied all_addrs_def)
  from a_c have ne: "addr_of c \<noteq> a" by (auto simp: all_addrs_def)
  let ?s4 = "round_state a (addr_of c) ?nc ?s1"
  from Tidy_round[OF n(1) n(2) run_c c1 a1 ne]
  have round: "Tidy k a s = Tidy k' a ?s4" by (simp add: k)
  have same: "heap ?s4 x = heap s x" if "x \<in> set (all_addrs (Sh a nm i cs))" "x \<noteq> a" for x
  proof -
    from that disj have "x \<notin> set (all_addrs c)" by blast
    then have "x \<notin> addr_of ` set (below c)" "x \<noteq> addr_of c"
      by (auto simp: all_addrs_def)
    with that(2) show ?thesis by (simp add: heap_round_state heap_tidied)
  qed
  have "has_shape (heap ?s4) t" if t: "t \<in> set cs" for t
  proof (rule has_shape_cong[of t "heap s"])
    from t shape_cs show "has_shape (heap s) t" by (simp add: list_all_iff)
    from all_addrs_kid[OF t, of a nm i] dist_cs
    have "\<forall>x \<in> set (all_addrs t). x \<in> set (all_addrs (Sh a nm i cs)) \<and> x \<noteq> a"
      by (auto simp: all_addrs_def)
    with same show "\<forall>x \<in> set (all_addrs t). heap s x = heap ?s4 x" by auto
  qed
  moreover have "heap ?s4 a = Some (n\<lparr>Children := map addr_of cs\<rparr>)"
    using ne a1 n(2) by (simp add: heap_round_state)
  ultimately have shape4: "has_shape (heap ?s4) (Sh a nm i cs)"
    using n(3,4) by (simp add: list_all_iff)
  from Cons.IH[OF Cons.prems(1) shape4 dist_cs fuel_cs] obtain evs2
    where run_cs: "Tidy k' a ?s4 = Some (Inr (tidied (Sh a nm i cs) evs2 ?s4))"
      and log_cs: "destroyed_of evs2 = map addr_of (below (Sh a nm i cs))"
    by auto
  let ?evs = "evs1 @ cull_events ?nc @ delete_events (addr_of c) ?nc @ evs2"
  have names: "ServerName ?nc = name_of c" "sid ?nc = sid_of c"
    using nc by simp_all
  have "Tidy k a s = Some (Inr (tidied (Sh a nm i (c # cs)) ?evs s))"
    unfolding round run_cs tidied_compose[OF names a_c] ..
  moreover have "destroyed_of ?evs = map addr_of (below (Sh a nm i (c # cs)))"
    by (simp add: destroyed_of_simps log_c log_cs del: below.simps add: below_Cons)
  ultimately show ?case by blast
qed

lemma Tidy_shape:
  assumes "has_shape (heap s) t" and "distinct (all_addrs t)" and "Suc (length (below t)) \<le> k"
  shows "\<exists>evs. Tidy k (addr_of t) s = Some (Inr (tidied t evs s))
               \<and> destroyed_of evs = map addr_of (below t)"
  using assms
proof (induction t arbitrary: s k)
  case (Sh a nm i ts)
  from Tidy_kids[OF Sh.IH Sh.prems] show ?case by simp
qed

lemma Tidy_unfold:
  "Tidy k this s =
     (if k = 0 then None
      else case heap s this of
        None \<Rightarrow> Some (Inl UseAfterFree)
      | Some n \<Rightarrow>
          (case Children n of
             [] \<Rightarrow> Some (Inr s)
           | c # _ \<Rightarrow>
               (case Tidy (k - 1) c s of
                  None \<Rightarrow> None
                | Some (Inl e) \<Rightarrow> Some (Inl e)
                | Some (Inr s1) \<Rightarrow>
               (case cull c s1 of
                  Inl e \<Rightarrow> Some (Inl e)
                | Inr s2 \<Rightarrow>
               (case modify this (\<lambda>m. m\<lparr>Children := tl (Children m)\<rparr>) s2 of
                  Inl e \<Rightarrow> Some (Inl e)
                | Inr s3 \<Rightarrow>
               (case delete_TreeServer c s3 of
                  Inl e \<Rightarrow> Some (Inl e)
                | Inr s4 \<Rightarrow> Tidy (k - 1) this s4))))))"
proof (cases k)
  case 0
  then show ?thesis by simp
next
  case (Suc j)
  then have j: "k - 1 = j" by simp
  show ?thesis
    unfolding j unfolding Suc by (simp only: Tidy.simps nat.simps if_False)
qed

lemmas tidy_eval = Tidy_unfold cull_def delete_TreeServer_def modify_def emit_def IsRoot_def Let_def

declare below.simps [simp del]

lemma below_has_shape:
  assumes "has_shape h t" and "d \<in> set (below t)"
  shows "has_shape h d"
  using assms
proof (induction t)
  case (Sh a nm i ts)
  from Sh.prems(2) obtain c where c: "c \<in> set ts" and d: "d \<in> set (below c) \<or> d = c"
    by (auto simp: below.simps)
  from Sh.prems(1) c have "has_shape h c"
    by (auto simp: list_all_iff split: option.splits)
  with d Sh.IH[OF c] show ?case by auto
qed

lemma has_shape_live:
  assumes "has_shape h d"
  shows "\<exists>n. h (addr_of d) = Some n \<and> ServerName n = name_of d \<and> sid n = sid_of d
             \<and> Children n = map addr_of (kids d)"
  using assms by (cases d) (auto split: option.splits)

lemma index_inv_name:
  assumes "index_inv s" and "heap s a = Some n"
  shows "serverlist s (ServerName n) = Some a" and "sidlist s (sid n) = Some a"
  using assms unfolding index_inv_def by blast+

lemma index_inv_unique:
  assumes "index_inv s" and "heap s a = Some n" and "heap s b = Some m"
    and "ServerName n = ServerName m \<or> sid n = sid m"
  shows "a = b"
  using index_inv_name[OF assms(1,2)] index_inv_name[OF assms(1,3)] assms(4) by auto

lemma index_inv_tidied:
  assumes inv: "index_inv s" and shape: "has_shape (heap s) t"
  shows "index_inv (tidied t evs s)"
proof -
  have live: "\<exists>n. heap s (addr_of d) = Some n \<and> ServerName n = name_of d \<and> sid n = sid_of d"
    if "d \<in> set (below t)" for d
    using has_shape_live[OF below_has_shape[OF shape that]] by blast
  have names: "k \<in> name_of ` set (below t) \<longleftrightarrow> a \<in> addr_of ` set (below t)"
    if "heap s a = Some n" "ServerName n = k" for k a n
  proof
    assume "k \<in> name_of ` set (below t)"
    then obtain d where d: "d \<in> set (below t)" "k = name_of d" by auto
    from live[OF d(1)] d(2) that have "addr_of d = a"
      by (auto intro: index_inv_unique[OF inv])
    with d show "a \<in> addr_of ` set (below t)" by auto
  next
    assume "a \<in> addr_of ` set (below t)"
    then obtain d where d: "d \<in> set (below t)" "a = addr_of d" by auto
    from live[OF d(1)] d that show "k \<in> name_of ` set (below t)" by auto
  qed
  have sids: "k \<in> sid_of ` set (below t) \<longleftrightarrow> a \<in> addr_of ` set (below t)"
    if "heap s a = Some n" "sid n = k" for k a n
  proof
    assume "k \<in> sid_of ` set (below t)"
    then obtain d where d: "d \<in> set (below t)" "k = sid_of d" by auto
    from live[OF d(1)] d(2) that have "addr_of d = a"
      by (auto intro: index_inv_unique[OF inv])
    with d show "a \<in> addr_of ` set (below t)" by auto
  next
    assume "a \<in> addr_of ` set (below t)"
    then obtain d where d: "d \<in> set (below t)" "a = addr_of d" by auto
    from live[OF d(1)] d that show "k \<in> sid_of ` set (below t)" by auto
  qed
  have "serverlist (tidied t evs s) k = Some a
          \<longleftrightarrow> (\<exists>n. heap (tidied t evs s) a = Some n \<and> ServerName n = k)" for k a
  proof (cases "\<exists>n. heap s a = Some n \<and> ServerName n = k")
    case True
    then obtain n where n: "heap s a = Some n" "ServerName n = k" by blast
    with inv have "serverlist s k = Some a" by (auto simp: index_inv_def)
    with names[OF n] n show ?thesis
      by (auto simp: tidied_def)
  next
    case False
    with inv have "serverlist s k \<noteq> Some a" by (auto simp: index_inv_def)
    with False show ?thesis
      by (auto simp: tidied_def split: if_splits)
  qed
  moreover have "sidlist (tidied t evs s) k = Some a
          \<longleftrightarrow> (\<exists>n. heap (tidied t evs s) a = Some n \<and> sid n = k)" for k a
  proof (cases "\<exists>n. heap s a = Some n \<and> sid n = k")
    case True
    then obtain n where n: "heap s a = Some n" "sid n = k" by blast
    with inv have "sidlist s k = Some a" by (auto simp: index_inv_def)
    with sids[OF n] n show ?thesis
      by (auto simp: tidied_def)
  next
    case False
    with inv have "sidlist s k \<noteq> Some a" by (auto simp: index_inv_def)
    with False show ?thesis
      by (auto simp: tidied_def split: if_splits)
  qed
  ultimately show ?thesis unfolding index_inv_def by blast
qed

lemma kid_in_below:
  assumes "c \<in> set (kids d)"
  shows "c \<in> set (below d)"
  using assms by (cases d) (auto simp: below.simps)

lemma below_split:
  assumes "t' \<in> set ts"
  shows "\<exists>P Q. below (Sh a nm i ts) = P @ below t' @ [t'] @ Q"
proof -
  from assms obtain pre post where "ts = pre @ t' # post" by (auto dest: split_list)
  then have "below (Sh a nm i ts) =
      concat (map (\<lambda>t. below t @ [t]) pre) @ below t' @ [t'] @ concat (map (\<lambda>t. below t @ [t]) post)"
    by (simp add: below.simps)
  then show ?thesis by blast
qed

lemma below_postorder:
  assumes "d \<in> set (below t)" and "c \<in> set (kids d)"
  shows "\<exists>xs ys zs. below t = xs @ c # ys @ d # zs"
  using assms
proof (induction t)
  case (Sh a nm i ts)
  from Sh.prems(1) obtain t' where t': "t' \<in> set ts" and d: "d \<in> set (below t') \<or> d = t'"
    by (auto simp: below.simps)
  from below_split[OF t', of a nm i] obtain P Q
    where split: "below (Sh a nm i ts) = P @ below t' @ [t'] @ Q" by blast
  from d show ?case
  proof
    assume "d \<in> set (below t')"
    from Sh.IH[OF t' this Sh.prems(2)] obtain xs ys zs
      where "below t' = xs @ c # ys @ d # zs" by blast
    with split have "below (Sh a nm i ts) = (P @ xs) @ c # ys @ d # (zs @ [t'] @ Q)" by simp
    then show ?thesis by blast
  next
    assume "d = t'"
    with kid_in_below[OF Sh.prems(2)] obtain u v where "below t' = u @ c # v"
      by (auto dest: split_list)
    with split \<open>d = t'\<close> have "below (Sh a nm i ts) = (P @ u) @ c # v @ d # Q" by simp
    then show ?thesis by blast
  qed
qed

lemma Tidy_result:
  assumes "has_shape (heap s) t" and "distinct (all_addrs t)" and "Suc (length (below t)) \<le> k"
  shows "\<exists>s' evs. Tidy k (addr_of t) s = Some (Inr s') \<and> s' = tidied t evs s
            \<and> destroyed_of (new_events s (Some (Inr s'))) = map addr_of (below t)"
proof -
  from Tidy_shape[OF assms] obtain evs
    where "Tidy k (addr_of t) s = Some (Inr (tidied t evs s))"
      and "destroyed_of evs = map addr_of (below t)" by blast
  moreover have "new_events s (Some (Inr (tidied t evs s))) = evs"
    by (simp add: new_events_def tidied_def)
  ultimately show ?thesis by auto
qed

lemma ex_tree_index: "index_inv ex_tree"
  unfolding index_inv_def
  by (auto simp: ex_simps split: if_splits)

lemma ex_shape_facts:
  "has_shape (heap ex_tree) ex_shape"
  "distinct (all_addrs ex_shape)"
  "Suc (length (below ex_shape)) \<le> 4"
  "map addr_of (below ex_shape) = [4, 2, 3]"
  "all_addrs ex_shape = [4, 2, 3, 1]"
  "addr_of ex_shape = 1"
  by (simp_all add: ex_shape_def all_addrs_def below.simps ex_simps)

text \<open>
  Claim C9. When the store holds a tree \<open>t\<close> at \<open>N\<close> with pairwise distinct addresses,
  the index is exact and the fuel covers the tree, \<open>Tidy\<close> on \<open>N\<close> returns; \<open>N\<close> is the
  node it was but for an empty child list (so its parent pointer is unchanged), is still
  registered under its name and its SID, every strict descendant is gone, every node
  outside the tree is untouched (so a parent that listed \<open>N\<close> still does), and the
  nodes destroyed are exactly the strict descendants.
\<close>

theorem C9_Tidy_strict_descendants:
  assumes "has_shape (heap s) t" and "distinct (all_addrs t)" and "Suc (length (below t)) \<le> k"
    and "index_inv s" and "heap s (addr_of t) = Some n"
  shows "\<exists>s'. Tidy k (addr_of t) s = Some (Inr s')
     \<and> heap s' (addr_of t) = Some (n\<lparr>Children := []\<rparr>)
     \<and> serverlist s' (ServerName n) = Some (addr_of t)
     \<and> sidlist s' (sid n) = Some (addr_of t)
     \<and> (\<forall>d \<in> set (below t). heap s' (addr_of d) = None)
     \<and> (\<forall>x. x \<notin> set (all_addrs t) \<longrightarrow> heap s' x = heap s x)
     \<and> (\<forall>p pn. heap s p = Some pn \<longrightarrow> addr_of t \<in> set (Children pn) \<longrightarrow>
            p \<notin> set (all_addrs t) \<longrightarrow> heap s' p = Some pn)
     \<and> destroyed_of (new_events s (Some (Inr s'))) = map addr_of (below t)"
proof -
  from Tidy_result[OF assms(1-3)] obtain s' evs
    where run: "Tidy k (addr_of t) s = Some (Inr s')" and s': "s' = tidied t evs s"
      and log: "destroyed_of (new_events s (Some (Inr s'))) = map addr_of (below t)"
    by blast
  from assms(2) have self: "addr_of t \<notin> addr_of ` set (below t)"
    by (auto simp: all_addrs_def)
  with assms(5) have N: "heap s' (addr_of t) = Some (n\<lparr>Children := []\<rparr>)"
    by (simp add: s' heap_tidied)
  have inv': "index_inv s'"
    unfolding s' using assms(4,1) by (rule index_inv_tidied)
  from index_inv_name[OF inv' N]
  have idx: "serverlist s' (ServerName n) = Some (addr_of t)" "sidlist s' (sid n) = Some (addr_of t)"
    by simp_all
  have gone: "\<forall>d \<in> set (below t). heap s' (addr_of d) = None"
    by (simp add: s' heap_tidied)
  have frame: "\<forall>x. x \<notin> set (all_addrs t) \<longrightarrow> heap s' x = heap s x"
    by (auto simp: s' heap_tidied all_addrs_def)
  then have "\<forall>p pn. heap s p = Some pn \<longrightarrow> addr_of t \<in> set (Children pn) \<longrightarrow>
            p \<notin> set (all_addrs t) \<longrightarrow> heap s' p = Some pn"
    by simp
  with run N idx gone frame log show ?thesis by blast
qed

theorem C9_Tidy_strict_descendants_witness:
  "has_shape (heap ex_tree) ex_shape \<and> distinct (all_addrs ex_shape)
   \<and> Suc (length (below ex_shape)) \<le> 4 \<and> index_inv ex_tree
   \<and> children_of 1 ex_tree = Some [2, 3] \<and> children_of 0 ex_tree = Some [1]
   \<and> (\<exists>s'. Tidy 4 1 ex_tree = Some (Inr s')
        \<and> children_of 1 s' = Some []
        \<and> map_option Parent (heap s' 1) = Some (Some 0)
        \<and> name_entry ''b.example'' s' = Some 1 \<and> sid_entry ''00B'' s' = Some 1
        \<and> children_of 0 s' = Some [1]
        \<and> map (\<lambda>a. live a s') [2, 3, 4] = [False, False, False]
        \<and> destroyed_of (new_events ex_tree (Some (Inr s'))) = [4, 2, 3])"
proof -
  obtain n where n: "heap ex_tree 1 = Some n" and nf: "ServerName n = ''b.example''"
    "sid n = ''00B''" "Parent n = Some 0" "Children n = [2, 3]"
    by (simp add: ex_simps)
  obtain rn where rn: "heap ex_tree 0 = Some rn" and rf: "Children rn = [1]"
    by (simp add: ex_simps)
  from C9_Tidy_strict_descendants[OF ex_shape_facts(1-3) ex_tree_index, unfolded ex_shape_facts(6), OF n]
  obtain s' where run: "Tidy 4 1 ex_tree = Some (Inr s')"
    and N: "heap s' 1 = Some (n\<lparr>Children := []\<rparr>)"
    and idx: "serverlist s' (ServerName n) = Some 1" "sidlist s' (sid n) = Some 1"
    and gone: "\<forall>d \<in> set (below ex_shape). heap s' (addr_of d) = None"
    and frame: "\<forall>x. x \<notin> set (all_addrs ex_shape) \<longrightarrow> heap s' x = heap ex_tree x"
    and log: "destroyed_of (new_events ex_tree (Some (Inr s'))) = map addr_of (below ex_shape)"
    by (auto simp: ex_shape_facts(6))
  from gone have "\<forall>a \<in> set (map addr_of (below ex_shape)). heap s' a = None" by simp
  then have dead: "heap s' 2 = None" "heap s' 3 = None" "heap s' 4 = None"
    by (simp_all add: ex_shape_facts)
  from frame have root: "heap s' 0 = heap ex_tree 0" by (simp add: ex_shape_facts)
  have "children_of 1 s' = Some []" "map_option Parent (heap s' 1) = Some (Some 0)"
    "name_entry ''b.example'' s' = Some 1" "sid_entry ''00B'' s' = Some 1"
    "children_of 0 s' = Some [1]" "map (\<lambda>a. live a s') [2, 3, 4] = [False, False, False]"
    "destroyed_of (new_events ex_tree (Some (Inr s'))) = [4, 2, 3]"
    using N idx dead root log nf rn rf
    by (simp_all add: children_of_def name_entry_def sid_entry_def live_def ex_shape_facts)
  with run have "\<exists>s'. Tidy 4 1 ex_tree = Some (Inr s')
        \<and> children_of 1 s' = Some []
        \<and> map_option Parent (heap s' 1) = Some (Some 0)
        \<and> name_entry ''b.example'' s' = Some 1 \<and> sid_entry ''00B'' s' = Some 1
        \<and> children_of 0 s' = Some [1]
        \<and> map (\<lambda>a. live a s') [2, 3, 4] = [False, False, False]
        \<and> destroyed_of (new_events ex_tree (Some (Inr s'))) = [4, 2, 3]"
    by (intro exI[of _ s'] conjI)
  moreover have "children_of 1 ex_tree = Some [2, 3]" "children_of 0 ex_tree = Some [1]"
    using n nf rn rf by (simp_all add: children_of_def)
  ultimately show ?thesis using ex_shape_facts(1-3) ex_tree_index by blast
qed

text \<open>
  Claim C4, as amended. Under the same conditions, and when no node outside the tree
  lists a strict descendant of \<open>B\<close> as a child, \<open>Tidy\<close> on \<open>B\<close> returns; no strict
  descendant is live or reachable through the index, by its own name or SID or by any
  other key; the nodes are destroyed in post-order, every node after each of its
  children; no child list of a live node names a destroyed node; \<open>B\<close> itself stays
  live and registered, with an empty child list; and the nodes outside the tree are
  untouched, so that the root still lists \<open>B\<close>.
\<close>

theorem C4_Tidy_descendants_gone:
  assumes "has_shape (heap s) t" and "distinct (all_addrs t)" and "Suc (length (below t)) \<le> k"
    and "index_inv s"
    and "\<forall>x m. heap s x = Some m \<longrightarrow> x \<notin> set (all_addrs t) \<longrightarrow>
           set (Children m) \<inter> addr_of ` set (below t) = {}"
  shows "\<exists>s'. Tidy k (addr_of t) s = Some (Inr s')
     \<and> (\<forall>d \<in> set (below t). heap s' (addr_of d) = None
            \<and> serverlist s' (name_of d) = None \<and> sidlist s' (sid_of d) = None
            \<and> (\<forall>key. serverlist s' key \<noteq> Some (addr_of d) \<and> sidlist s' key \<noteq> Some (addr_of d)))
     \<and> destroyed_of (new_events s (Some (Inr s'))) = map addr_of (below t)
     \<and> (\<forall>d \<in> set (below t). \<forall>c \<in> set (kids d).
            \<exists>xs ys zs. below t = xs @ c # ys @ d # zs)
     \<and> (\<forall>x m. heap s' x = Some m \<longrightarrow> set (Children m) \<inter> addr_of ` set (below t) = {})
     \<and> (\<exists>n. heap s' (addr_of t) = Some n \<and> Children n = []
            \<and> serverlist s' (ServerName n) = Some (addr_of t)
            \<and> sidlist s' (sid n) = Some (addr_of t))
     \<and> (\<forall>x. x \<notin> set (all_addrs t) \<longrightarrow> heap s' x = heap s x)"
proof -
  from Tidy_result[OF assms(1-3)] obtain s' evs
    where run: "Tidy k (addr_of t) s = Some (Inr s')" and s': "s' = tidied t evs s"
      and log: "destroyed_of (new_events s (Some (Inr s'))) = map addr_of (below t)"
    by blast
  have inv': "index_inv s'"
    unfolding s' using assms(4,1) by (rule index_inv_tidied)
  have gone: "heap s' (addr_of d) = None" if "d \<in> set (below t)" for d
    using that by (simp add: s' heap_tidied)
  have unindexed: "serverlist s' key \<noteq> Some (addr_of d) \<and> sidlist s' key \<noteq> Some (addr_of d)"
    if "d \<in> set (below t)" for d key
    using gone[OF that] inv' unfolding index_inv_def by auto
  have entries: "serverlist s' (name_of d) = None \<and> sidlist s' (sid_of d) = None"
    if "d \<in> set (below t)" for d
    using that by (auto simp: s' tidied_def)
  from has_shape_live[OF assms(1)] obtain n where n: "heap s (addr_of t) = Some n" by blast
  from assms(2) have self: "addr_of t \<notin> addr_of ` set (below t)"
    by (auto simp: all_addrs_def)
  with n have N: "heap s' (addr_of t) = Some (n\<lparr>Children := []\<rparr>)"
    by (simp add: s' heap_tidied)
  from index_inv_name[OF inv' N]
  have keep: "\<exists>n. heap s' (addr_of t) = Some n \<and> Children n = []
            \<and> serverlist s' (ServerName n) = Some (addr_of t)
            \<and> sidlist s' (sid n) = Some (addr_of t)"
    using N by auto
  have clean: "set (Children m) \<inter> addr_of ` set (below t) = {}" if m: "heap s' x = Some m" for x m
  proof (cases "x = addr_of t")
    case True
    with m N have "Children m = []" by auto
    then show ?thesis by simp
  next
    case False
    with m have "x \<notin> addr_of ` set (below t)" and "heap s x = Some m"
      by (auto simp: s' heap_tidied split: if_splits)
    with False assms(5) show ?thesis by (auto simp: all_addrs_def)
  qed
  have frame: "heap s' x = heap s x" if "x \<notin> set (all_addrs t)" for x
    using that by (auto simp: s' heap_tidied all_addrs_def)
  from run gone unindexed entries log keep clean below_postorder frame show ?thesis
    by (intro exI[of _ s'] conjI ballI allI impI) blast+
qed

theorem C4_Tidy_descendants_gone_witness:
  "has_shape (heap ex_tree) ex_shape \<and> distinct (all_addrs ex_shape)
   \<and> Suc (length (below ex_shape)) \<le> 4 \<and> index_inv ex_tree
   \<and> map (\<lambda>k. name_entry k ex_tree) [''d.example'', ''e.example'', ''f.example'']
       = [Some 2, Some 3, Some 4]
   \<and> (\<exists>s'. Tidy 4 1 ex_tree = Some (Inr s')
        \<and> map (\<lambda>a. live a s') [2, 3, 4] = [False, False, False]
        \<and> map (\<lambda>k. name_entry k s') [''d.example'', ''e.example'', ''f.example'']
            = [None, None, None]
        \<and> map (\<lambda>k. sid_entry k s') [''00D'', ''00E'', ''00F''] = [None, None, None]
        \<and> destroyed_of (new_events ex_tree (Some (Inr s'))) = [4, 2, 3]
        \<and> children_of 1 s' = Some [] \<and> children_of 0 s' = Some [1])"
proof -
  have outside: "\<forall>x m. heap ex_tree x = Some m \<longrightarrow> x \<notin> set (all_addrs ex_shape) \<longrightarrow>
           set (Children m) \<inter> addr_of ` set (below ex_shape) = {}"
    unfolding image_set ex_shape_facts by (auto simp: ex_simps split: if_splits)
  from C4_Tidy_descendants_gone[OF ex_shape_facts(1-3) ex_tree_index outside]
  obtain s' where run: "Tidy 4 1 ex_tree = Some (Inr s')"
    and gone: "\<forall>d \<in> set (below ex_shape). heap s' (addr_of d) = None
            \<and> serverlist s' (name_of d) = None \<and> sidlist s' (sid_of d) = None
            \<and> (\<forall>key. serverlist s' key \<noteq> Some (addr_of d) \<and> sidlist s' key \<noteq> Some (addr_of d))"
    and log: "destroyed_of (new_events ex_tree (Some (Inr s'))) = map addr_of (below ex_shape)"
    and keep: "\<exists>n. heap s' (addr_of ex_shape) = Some n \<and> Children n = []
            \<and> serverlist s' (ServerName n) = Some (addr_of ex_shape)
            \<and> sidlist s' (sid n) = Some (addr_of ex_shape)"
    and frame: "\<forall>x. x \<notin> set (all_addrs ex_shape) \<longrightarrow> heap s' x = heap ex_tree x"
    by (auto simp: ex_shape_facts(6))
  have below: "below ex_shape = [Sh 4 ''f.example'' ''00F'' [],
      Sh 2 ''d.example'' ''00D'' [Sh 4 ''f.example'' ''00F'' []], Sh 3 ''e.example'' ''00E'' []]"
    by (simp add: ex_shape_def below.simps)
  from gone have "map (\<lambda>a. live a s') [2, 3, 4] = [False, False, False]"
    "map (\<lambda>k. name_entry k s') [''d.example'', ''e.example'', ''f.example''] = [None, None, None]"
    "map (\<lambda>k. sid_entry k s') [''00D'', ''00E'', ''00F''] = [None, None, None]"
    unfolding below by (simp_all add: live_def name_entry_def sid_entry_def)
  moreover from log have "destroyed_of (new_events ex_tree (Some (Inr s'))) = [4, 2, 3]"
    by (simp add: ex_shape_facts)
  moreover from keep have "children_of 1 s' = Some []"
    by (auto simp: children_of_def ex_shape_facts)
  moreover from frame have "children_of 0 s' = Some [1]"
    by (simp add: children_of_def ex_shape_facts) (simp add: ex_simps)
  ultimately have "\<exists>s'. Tidy 4 1 ex_tree = Some (Inr s')
        \<and> map (\<lambda>a. live a s') [2, 3, 4] = [False, False, False]
        \<and> map (\<lambda>k. name_entry k s') [''d.example'', ''e.example'', ''f.example'']
            = [None, None, None]
        \<and> map (\<lambda>k. sid_entry k s') [''00D'', ''00E'', ''00F''] = [None, None, None]
        \<and> destroyed_of (new_events ex_tree (Some (Inr s'))) = [4, 2, 3]
        \<and> children_of 1 s' = Some [] \<and> children_of 0 s' = Some [1]"
    using run by (intro exI[of _ s'] conjI)
  moreover have "map (\<lambda>k. name_entry k ex_tree) [''d.example'', ''e.example'', ''f.example'']
       = [Some 2, Some 3, Some 4]"
    by (simp add: name_entry_def ex_simps)
  ultimately show ?thesis using ex_shape_facts(1-3) ex_tree_index by blast
qed

text \<open>
  Claim C4 as stated fails: after \<open>Tidy\<close> on B in \<open>ex_tree\<close>, B is still live, still
  found in the index by name and by SID, and still in the root's child list.
\<close>

theorem C4_Tidy_keeps_B_counterexample:
  "children_of 0 ex_tree = Some [1] \<and> children_of 1 ex_tree = Some [2, 3]
   \<and> children_of 2 ex_tree = Some [4] \<and> children_of 3 ex_tree = Some []
   \<and> children_of 4 ex_tree = Some []
   \<and> after (live 1) (Tidy 4 1 ex_tree) = Some True
   \<and> after (name_entry ''b.example'') (Tidy 4 1 ex_tree) = Some (Some 1)
   \<and> after (sid_entry ''00B'') (Tidy 4 1 ex_tree) = Some (Some 1)
   \<and> after (children_of 0) (Tidy 4 1 ex_tree) = Some (Some [1])"
proof -
  have "children_of 0 ex_tree = Some [1]" "children_of 1 ex_tree = Some [2, 3]"
    "children_of 2 ex_tree = Some [4]" "children_of 3 ex_tree = Some []"
    "children_of 4 ex_tree = Some []"
    by (simp_all add: children_of_def ex_simps)
  moreover have "after (live 1) (Tidy 4 1 ex_tree) = Some True"
    by (simp add: after_def live_def tidy_eval ex_simps)
  moreover have "after (name_entry ''b.example'') (Tidy 4 1 ex_tree) = Some (Some 1)"
    by (simp add: after_def name_entry_def tidy_eval ex_simps)
  moreover have "after (sid_entry ''00B'') (Tidy 4 1 ex_tree) = Some (Some 1)"
    by (simp add: after_def sid_entry_def tidy_eval ex_simps)
  moreover have "after (children_of 0) (Tidy 4 1 ex_tree) = Some (Some [1])"
    by (simp add: after_def children_of_def tidy_eval ex_simps)
  ultimately show ?thesis by simp
qed

subsection \<open>What one operation does to a node and to the index\<close>

lemma Tidy_invariant:
  assumes c: "\<And>c s s'. P s \<Longrightarrow> cull c s = Inr s' \<Longrightarrow> P s'"
    and e: "\<And>a s s'. P s \<Longrightarrow> modify a (\<lambda>m. m\<lparr>Children := tl (Children m)\<rparr>) s = Inr s' \<Longrightarrow> P s'"
    and d: "\<And>c s s'. P s \<Longrightarrow> delete_TreeServer c s = Inr s' \<Longrightarrow> P s'"
    and run: "Tidy k a s = Some (Inr s')" and start: "P s"
  shows "P s'"
  using run start
proof (induction k arbitrary: a s s')
  case 0
  then show ?case by simp
next
  case (Suc k)
  from Suc.prems(1) obtain n where n: "heap s a = Some n"
    by (auto split: option.splits)
  show ?case
  proof (cases "Children n")
    case Nil
    with Suc.prems n show ?thesis by simp
  next
    case (Cons ch rest)
    with Suc.prems(1) n obtain s1 s2 s3 s4
      where 1: "Tidy k ch s = Some (Inr s1)" and 2: "cull ch s1 = Inr s2"
        and 3: "modify a (\<lambda>m. m\<lparr>Children := tl (Children m)\<rparr>) s2 = Inr s3"
        and 4: "delete_TreeServer ch s3 = Inr s4" and 5: "Tidy k a s4 = Some (Inr s')"
      by (auto split: option.splits sum.splits)
    from Suc.IH[OF 1 Suc.prems(2)] have "P s1" .
    from c[OF this 2] have "P s2" .
    from e[OF this 3] have "P s3" .
    from d[OF this 4] have "P s4" .
    from Suc.IH[OF 5 this] show ?thesis .
  qed
qed

lemma survivors_refl: "survivors s s"
  by (simp add: survivors_def)

lemma survivors_cull:
  assumes "survivors s s1" and "cull c s1 = Inr s2"
  shows "survivors s s2"
  using assms by (auto simp: survivors_def cull_def emit_def split: option.splits if_splits)

lemma survivors_erase:
  assumes "survivors s s1" and "modify a (\<lambda>m. m\<lparr>Children := tl (Children m)\<rparr>) s1 = Inr s2"
  shows "survivors s s2"
proof -
  from assms(2) obtain m where m: "heap s1 a = Some m"
    and s2: "heap s2 = (heap s1)(a \<mapsto> m\<lparr>Children := tl (Children m)\<rparr>)"
    by (auto simp: modify_def split: option.splits)
  show ?thesis
    unfolding survivors_def
  proof (intro allI impI)
    fix x n1 assume x: "heap s2 x = Some n1"
    show "\<exists>n. heap s x = Some n \<and> n1\<lparr>Children := Children n\<rparr> = n"
    proof (cases "x = a")
      case True
      with x s2 have n1: "n1 = m\<lparr>Children := tl (Children m)\<rparr>" by simp
      from assms(1) m obtain n where "heap s a = Some n" "m\<lparr>Children := Children n\<rparr> = n"
        by (auto simp: survivors_def)
      with True n1 show ?thesis by simp
    next
      case False
      with x s2 have "heap s1 x = Some n1" by simp
      with assms(1) show ?thesis by (auto simp: survivors_def)
    qed
  qed
qed

lemma survivors_delete:
  assumes "survivors s s1" and "delete_TreeServer c s1 = Inr s2"
  shows "survivors s s2"
  using assms
  by (auto simp: survivors_def delete_TreeServer_def emit_def Let_def split: option.splits if_splits)

lemma Tidy_survivors:
  assumes "Tidy k a s = Some (Inr s')"
  shows "survivors s s'"
  using survivors_cull survivors_erase survivors_delete assms survivors_refl
  by (rule Tidy_invariant[where P="survivors s"])

lemma survivors_fields:
  assumes "survivors s s'" and "heap s' a = Some n'"
  shows "\<exists>n. heap s a = Some n \<and> ServerName n' = ServerName n \<and> sid n' = sid n
           \<and> Parent n' = Parent n \<and> Route n' = Route n \<and> bursting n' = bursting n
           \<and> LastPingWasGood n' = LastPingWasGood n \<and> NextPing n' = NextPing n"
proof -
  from assms obtain n where n: "heap s a = Some n" "n'\<lparr>Children := Children n\<rparr> = n"
    by (auto simp: survivors_def)
  from n(2) have "ServerName (n'\<lparr>Children := Children n\<rparr>) = ServerName n"
    "sid (n'\<lparr>Children := Children n\<rparr>) = sid n"
    "Parent (n'\<lparr>Children := Children n\<rparr>) = Parent n"
    "Route (n'\<lparr>Children := Children n\<rparr>) = Route n"
    "bursting (n'\<lparr>Children := Children n\<rparr>) = bursting n"
    "LastPingWasGood (n'\<lparr>Children := Children n\<rparr>) = LastPingWasGood n"
    "NextPing (n'\<lparr>Children := Children n\<rparr>) = NextPing n"
    by simp_all
  with n(1) show ?thesis by simp
qed

lemma exec_old_node:
  assumes "exec x s s'" and "heap s a = Some n" and "heap s' a = Some n'"
  shows "ServerName n' = ServerName n \<and> sid n' = sid n \<and> Parent n' = Parent n \<and> Route n' = Route n
     \<and> (bursting n' \<longrightarrow> bursting n)
     \<and> (bursting n \<and> \<not> bursting n' \<longrightarrow> (\<exists>b. finishes x b \<and> a \<in> subtree (heap s) b))
     \<and> (LastPingWasGood n \<and> \<not> LastPingWasGood n' \<longrightarrow> (\<exists>t. x = DoSetNextPingTime a t))"
proof (cases x)
  case (NewChild this Name Desc id' Above' Sock Hide)
  with assms(1) obtain r where "heap s this = None"
    "s' = child_state this Name Desc id' Above' Sock Hide r s"
    by (auto simp: TreeServer_child_unfold split: option.splits sum.splits if_splits)
  with assms(2,3) show ?thesis
    by (auto simp: child_state_def split: if_splits)
next
  case (DoFinishBurst b)
  with assms(1) obtain k where "FinishBurst k b s = Some (Inr s')" by auto
  from FinishBurst_result[OF this]
  have "heap s' a = heap (finish_all (subtree (heap s) b) s) a"
    by (auto simp: emit_def)
  with assms(2,3) DoFinishBurst show ?thesis
    by (auto simp: heap_finish_all finished_def finishes_def split: if_splits)
next
  case (DoFinishBurstInternal b)
  with assms(1) obtain k where "FinishBurstInternal k b s = Some (Inr s')" by auto
  from FinishBurstInternal_char[OF this]
  have "heap s' a = heap (finish_all (subtree (heap s) b) s) a" by simp
  with assms(2,3) DoFinishBurstInternal show ?thesis
    by (auto simp: heap_finish_all finished_def finishes_def split: if_splits)
next
  case (DoQuitUsers b reason)
  with assms(1) have "heap s' = heap s"
    by (auto simp: QuitUsers_def fold_quit_one Let_def split: option.splits)
  with assms(2,3) show ?thesis by simp
next
  case (DoSetNextPingTime b t)
  with assms show ?thesis
    by (auto simp: SetNextPingTime_def modify_def split: option.splits if_splits)
next
  case (DoSetPingFlag b)
  with assms show ?thesis
    by (auto simp: SetPingFlag_def modify_def split: option.splits if_splits)
next
  case (DoNextPingTime b)
  with assms show ?thesis
    by (auto simp: NextPingTime_def split: option.splits)
next
  case (DoAnsweredLastPing b)
  with assms show ?thesis
    by (auto simp: AnsweredLastPing_def split: option.splits)
next
  case (DoGetRoute b)
  with assms show ?thesis
    by (auto simp: GetRoute_def split: option.splits)
next
  case (DoGetParent b)
  with assms show ?thesis
    by (auto simp: GetParent_def split: option.splits)
next
  case (DoSetVersion b v)
  with assms show ?thesis
    by (auto simp: SetVersion_def modify_def split: option.splits if_splits)
next
  case (DoAddChild b c)
  with assms show ?thesis
    by (auto simp: AddChild_def modify_def split: option.splits if_splits)
next
  case (DoDelChild b c)
  with assms show ?thesis
    by (auto simp: DelChild_def split: option.splits if_splits)
next
  case (DoTidy b)
  with assms(1) obtain k where "Tidy k b s = Some (Inr s')" by auto
  from survivors_fields[OF Tidy_survivors[OF this] assms(3)] assms(2)
  show ?thesis by auto
next
  case (DoCull b)
  with assms show ?thesis
    by (auto simp: cull_def emit_def split: option.splits if_splits)
next
  case (Delete b)
  with assms show ?thesis
    by (auto simp: delete_TreeServer_def emit_def Let_def split: option.splits if_splits)
qed

lemma exec_new_node:
  assumes "exec x s s'" and "heap s a = None" and "heap s' a = Some n'"
  shows "bursting n' \<and> LastPingWasGood n'
     \<and> (\<exists>Name Desc id' Above' Sock Hide. x = NewChild a Name Desc id' Above' Sock Hide)"
proof (cases x)
  case (NewChild this Name Desc id' Above' Sock Hide)
  with assms(1) obtain r where "heap s this = None"
    "s' = child_state this Name Desc id' Above' Sock Hide r s"
    by (auto simp: TreeServer_child_unfold split: option.splits sum.splits if_splits)
  with assms(2,3) NewChild show ?thesis
    by (auto simp: child_state_def child_node_def split: if_splits)
next
  case (DoFinishBurst b)
  with assms(1) obtain k where "FinishBurst k b s = Some (Inr s')" by auto
  from FinishBurst_result[OF this]
  have "heap s' a = heap (finish_all (subtree (heap s) b) s) a"
    by (auto simp: emit_def)
  with assms(2,3) show ?thesis
    by (auto simp: heap_finish_all split: if_splits)
next
  case (DoFinishBurstInternal b)
  with assms(1) obtain k where "FinishBurstInternal k b s = Some (Inr s')" by auto
  from FinishBurstInternal_char[OF this]
  have "heap s' a = heap (finish_all (subtree (heap s) b) s) a" by simp
  with assms(2,3) show ?thesis
    by (auto simp: heap_finish_all split: if_splits)
next
  case (DoQuitUsers b reason)
  with assms(1) have "heap s' = heap s"
    by (auto simp: QuitUsers_def fold_quit_one Let_def split: option.splits)
  with assms(2,3) show ?thesis by simp
next
  case (DoSetNextPingTime b t)
  with assms show ?thesis
    by (auto simp: SetNextPingTime_def modify_def split: option.splits if_splits)
next
  case (DoSetPingFlag b)
  with assms show ?thesis
    by (auto simp: SetPingFlag_def modify_def split: option.splits if_splits)
next
  case (DoNextPingTime b)
  with assms show ?thesis
    by (auto simp: NextPingTime_def split: option.splits)
next
  case (DoAnsweredLastPing b)
  with assms show ?thesis
    by (auto simp: AnsweredLastPing_def split: option.splits)
next
  case (DoGetRoute b)
  with assms show ?thesis
    by (auto simp: GetRoute_def split: option.splits)
next
  case (DoGetParent b)
  with assms show ?thesis
    by (auto simp: GetParent_def split: option.splits)
next
  case (DoSetVersion b v)
  with assms show ?thesis
    by (auto simp: SetVersion_def modify_def split: option.splits if_splits)
next
  case (DoAddChild b c)
  with assms show ?thesis
    by (auto simp: AddChild_def modify_def split: option.splits if_splits)
next
  case (DoDelChild b c)
  with assms show ?thesis
    by (auto simp: DelChild_def split: option.splits if_splits)
next
  case (DoTidy b)
  with assms(1) obtain k where "Tidy k b s = Some (Inr s')" by auto
  from survivors_fields[OF Tidy_survivors[OF this] assms(3)] assms(2)
  show ?thesis by auto
next
  case (DoCull b)
  with assms show ?thesis
    by (auto simp: cull_def emit_def split: option.splits if_splits)
next
  case (Delete b)
  with assms show ?thesis
    by (auto simp: delete_TreeServer_def emit_def Let_def split: option.splits if_splits)
qed

lemma index_inv_same_names:
  assumes "index_inv s" and "serverlist s' = serverlist s" and "sidlist s' = sidlist s"
    and dom: "\<And>a. heap s' a = None \<longleftrightarrow> heap s a = None"
    and names: "\<And>a n n'. heap s a = Some n \<Longrightarrow> heap s' a = Some n' \<Longrightarrow>
                 ServerName n' = ServerName n \<and> sid n' = sid n"
  shows "index_inv s'"
proof -
  have rel: "(heap s a = None \<and> heap s' a = None)
             \<or> (\<exists>n n'. heap s a = Some n \<and> heap s' a = Some n'
                   \<and> ServerName n' = ServerName n \<and> sid n' = sid n)" for a
  proof (cases "heap s a")
    case None
    with dom[of a] show ?thesis by simp
  next
    case (Some n)
    with dom[of a] obtain n' where "heap s' a = Some n'" by (cases "heap s' a") simp_all
    with Some names[OF Some this] show ?thesis by simp
  qed
  have "(\<exists>n'. heap s' a = Some n' \<and> ServerName n' = k) \<longleftrightarrow> (\<exists>n. heap s a = Some n \<and> ServerName n = k)"
    for a k
    using rel[of a] by (elim disjE exE conjE) simp_all
  moreover
  have "(\<exists>n'. heap s' a = Some n' \<and> sid n' = k) \<longleftrightarrow> (\<exists>n. heap s a = Some n \<and> sid n = k)"
    for a k
    using rel[of a] by (elim disjE exE conjE) simp_all
  ultimately show ?thesis
    using assms(1) unfolding index_inv_def assms(2,3) by simp
qed

lemma index_inv_cull:
  assumes "index_inv s" and "cull c s = Inr s'"
  shows "index_inv s'"
  using assms(1)
  by (rule index_inv_same_names)
     (use assms(2) in \<open>auto simp: cull_def emit_def split: option.splits if_splits\<close>)

lemma index_inv_erase:
  assumes "index_inv s" and "modify a (\<lambda>m. m\<lparr>Children := tl (Children m)\<rparr>) s = Inr s'"
  shows "index_inv s'"
  using assms(1)
  by (rule index_inv_same_names)
     (use assms(2) in \<open>auto simp: modify_def split: option.splits if_splits\<close>)

lemma delete_effect:
  assumes "delete_TreeServer a s = Inr s'" and "heap s a = Some n"
  shows "heap s' = (heap s)(a := None)"
    and "serverlist s' = (serverlist s)(ServerName n := None)"
    and "sidlist s' = (sidlist s)(sid n := None)"
  using assms by (auto simp: delete_TreeServer_def emit_def Let_def split: if_splits)

lemma index_inv_delete:
  assumes inv: "index_inv s" and del: "delete_TreeServer a s = Inr s'"
  shows "index_inv s'"
proof -
  from del obtain n where n: "heap s a = Some n"
    by (auto simp: delete_TreeServer_def split: option.splits)
  note eff = delete_effect[OF del n]
  have "serverlist s' k = Some b \<longleftrightarrow> (\<exists>m. heap s' b = Some m \<and> ServerName m = k)" for k b
  proof (cases "k = ServerName n")
    case True
    have "\<not> (\<exists>m. heap s' b = Some m \<and> ServerName m = k)"
    proof
      assume "\<exists>m. heap s' b = Some m \<and> ServerName m = k"
      then obtain m where m: "b \<noteq> a" "heap s b = Some m" "ServerName m = k"
        by (auto simp: eff split: if_splits)
      with index_inv_unique[OF inv n m(2)] True show False by simp
    qed
    with True show ?thesis by (simp add: eff)
  next
    case False
    have "(\<exists>m. heap s' b = Some m \<and> ServerName m = k) \<longleftrightarrow> (\<exists>m. heap s b = Some m \<and> ServerName m = k)"
      using False n by (auto simp: eff)
    with False inv show ?thesis by (simp add: eff index_inv_def)
  qed
  moreover
  have "sidlist s' k = Some b \<longleftrightarrow> (\<exists>m. heap s' b = Some m \<and> sid m = k)" for k b
  proof (cases "k = sid n")
    case True
    have "\<not> (\<exists>m. heap s' b = Some m \<and> sid m = k)"
    proof
      assume "\<exists>m. heap s' b = Some m \<and> sid m = k"
      then obtain m where m: "b \<noteq> a" "heap s b = Some m" "sid m = k"
        by (auto simp: eff split: if_splits)
      with index_inv_unique[OF inv n m(2)] True show False by simp
    qed
    with True show ?thesis by (simp add: eff)
  next
    case False
    have "(\<exists>m. heap s' b = Some m \<and> sid m = k) \<longleftrightarrow> (\<exists>m. heap s b = Some m \<and> sid m = k)"
      using False n by (auto simp: eff)
    with False inv show ?thesis by (simp add: eff index_inv_def)
  qed
  ultimately show ?thesis unfolding index_inv_def by blast
qed

lemma index_inv_Tidy:
  assumes "Tidy k a s = Some (Inr s')" and "index_inv s"
  shows "index_inv s'"
  using index_inv_cull index_inv_erase index_inv_delete assms
  by (rule Tidy_invariant[where P=index_inv])

lemma index_inv_insert:
  assumes inv: "index_inv s" and fresh: "heap s this = None"
    and heap': "heap s' = (heap s)(this \<mapsto> n)"
    and sl: "serverlist s' = (serverlist s)(ServerName n \<mapsto> this)"
    and si: "sidlist s' = (sidlist s)(sid n \<mapsto> this)"
    and dist: "distinct_ids s'"
  shows "index_inv s'"
proof -
  have this': "heap s' this = Some n" by (simp add: heap')
  have other: "ServerName m \<noteq> ServerName n \<and> sid m \<noteq> sid n" if "heap s b = Some m" for b m
  proof -
    from that fresh have "b \<noteq> this" by auto
    with that have "heap s' b = Some m" by (simp add: heap')
    with dist this' \<open>b \<noteq> this\<close> show ?thesis unfolding distinct_ids_def by blast
  qed
  have "serverlist s' k = Some b \<longleftrightarrow> (\<exists>m. heap s' b = Some m \<and> ServerName m = k)" for k b
  proof (cases "b = this")
    case True
    have "serverlist s k \<noteq> Some this" using inv fresh by (auto simp: index_inv_def)
    with True show ?thesis by (auto simp: sl heap')
  next
    case False
    have "serverlist s k = Some b \<longleftrightarrow> (\<exists>m. heap s b = Some m \<and> ServerName m = k)"
      using inv by (simp add: index_inv_def)
    with False other[of b] show ?thesis by (auto simp: sl heap')
  qed
  moreover
  have "sidlist s' k = Some b \<longleftrightarrow> (\<exists>m. heap s' b = Some m \<and> sid m = k)" for k b
  proof (cases "b = this")
    case True
    have "sidlist s k \<noteq> Some this" using inv fresh by (auto simp: index_inv_def)
    with True show ?thesis by (auto simp: si heap')
  next
    case False
    have "sidlist s k = Some b \<longleftrightarrow> (\<exists>m. heap s b = Some m \<and> sid m = k)"
      using inv by (simp add: index_inv_def)
    with False other[of b] show ?thesis by (auto simp: si heap')
  qed
  ultimately show ?thesis unfolding index_inv_def by blast
qed

lemma exec_index_frame:
  assumes "exec x s s'" and "\<not> changes_index x"
  shows "serverlist s' = serverlist s \<and> sidlist s' = sidlist s
         \<and> (\<forall>a. heap s' a = None \<longleftrightarrow> heap s a = None)"
proof (cases x)
  case (DoFinishBurst b)
  with assms(1) obtain k where "FinishBurst k b s = Some (Inr s')" by auto
  from FinishBurst_result[OF this] obtain ev1 ev2 ev3
    where s': "s' = emit ev1 (emit ev2 (emit ev3 (finish_all (subtree (heap s) b) s)))"
    by blast
  have "heap s' a = heap (finish_all (subtree (heap s) b) s) a" for a
    by (simp add: s' emit_def)
  then have "heap s' a = None \<longleftrightarrow> heap s a = None" for a
    by (simp add: heap_finish_all)
  moreover have "serverlist s' = serverlist s" "sidlist s' = sidlist s"
    by (simp_all add: s' emit_def finish_all_def)
  ultimately show ?thesis by simp
next
  case (DoFinishBurstInternal b)
  with assms(1) obtain k where "FinishBurstInternal k b s = Some (Inr s')" by auto
  from FinishBurstInternal_char[OF this]
  have s': "s' = finish_all (subtree (heap s) b) s" by simp
  have "heap s' a = None \<longleftrightarrow> heap s a = None" for a
    by (simp add: s' heap_finish_all)
  moreover have "serverlist s' = serverlist s" "sidlist s' = sidlist s"
    by (simp_all add: s' finish_all_def)
  ultimately show ?thesis by simp
next
  case (DoQuitUsers b reason)
  with assms(1) show ?thesis
    by (auto simp: QuitUsers_def fold_quit_one Let_def split: option.splits)
next
  case (DoSetNextPingTime b t)
  with assms(1) show ?thesis
    by (auto simp: SetNextPingTime_def modify_def split: option.splits if_splits)
next
  case (DoSetPingFlag b)
  with assms(1) show ?thesis
    by (auto simp: SetPingFlag_def modify_def split: option.splits if_splits)
next
  case (DoNextPingTime b)
  with assms(1) show ?thesis
    by (auto simp: NextPingTime_def split: option.splits)
next
  case (DoAnsweredLastPing b)
  with assms(1) show ?thesis
    by (auto simp: AnsweredLastPing_def split: option.splits)
next
  case (DoGetRoute b)
  with assms(1) show ?thesis
    by (auto simp: GetRoute_def split: option.splits)
next
  case (DoGetParent b)
  with assms(1) show ?thesis
    by (auto simp: GetParent_def split: option.splits)
next
  case (DoSetVersion b v)
  with assms(1) show ?thesis
    by (auto simp: SetVersion_def modify_def split: option.splits if_splits)
next
  case (DoAddChild b c)
  with assms(1) show ?thesis
    by (auto simp: AddChild_def modify_def split: option.splits if_splits)
next
  case (DoDelChild b c)
  with assms(1) show ?thesis
    by (auto simp: DelChild_def split: option.splits if_splits)
next
  case (DoCull b)
  with assms(1) show ?thesis
    by (auto simp: cull_def emit_def split: option.splits if_splits)
qed (use assms(2) in simp_all)

lemma exec_index_inv:
  assumes inv: "index_inv s" and run: "exec x s s'" and dist: "distinct_ids s'"
  shows "index_inv s'"
proof (cases "changes_index x")
  case False
  from exec_index_frame[OF run False]
  have sl: "serverlist s' = serverlist s" and si: "sidlist s' = sidlist s"
    and dom: "\<And>a. heap s' a = None \<longleftrightarrow> heap s a = None"
    by simp_all
  from inv sl si dom show ?thesis
    by (rule index_inv_same_names) (use exec_old_node[OF run] in blast)
next
  case True
  then show ?thesis
  proof (cases x)
    case (NewChild this Name Desc id' Above' Sock Hide)
    with run obtain r where fresh: "heap s this = None"
      and s': "s' = child_state this Name Desc id' Above' Sock Hide r s"
      by (auto simp: TreeServer_child_unfold split: option.splits sum.splits if_splits)
    let ?n = "child_node s Name Desc id' Above' Sock Hide r"
    have "heap s' = (heap s)(this \<mapsto> ?n)"
      "serverlist s' = (serverlist s)(ServerName ?n \<mapsto> this)"
      "sidlist s' = (sidlist s)(sid ?n \<mapsto> this)"
      by (simp_all add: s' child_state_def child_node_def)
    with inv fresh show ?thesis using dist by (rule index_inv_insert)
  next
    case (Delete a)
    with run inv show ?thesis by (auto intro: index_inv_delete)
  next
    case (DoTidy a)
    with run inv show ?thesis by (auto intro: index_inv_Tidy)
  qed simp_all
qed

lemma root_effect:
  assumes "TreeServer_root this np lp s = Inr s'"
  shows "\<exists>n. heap s' = (heap s)(this \<mapsto> n) \<and> \<not> bursting n
           \<and> ServerName n = Config_ServerName s \<and> sid n = Config_SID s
           \<and> Parent n = None \<and> Route n = None
           \<and> serverlist s' = (serverlist s)(ServerName n \<mapsto> this)
           \<and> sidlist s' = (sidlist s)(sid n \<mapsto> this)"
  using assms by (auto simp: TreeServer_root_def AddHashEntry_def)

lemma execs_answered:
  assumes "execs xs s s'" and "\<forall>n. heap s a = Some n \<longrightarrow> LastPingWasGood n"
    and "\<forall>t. DoSetNextPingTime a t \<notin> set xs"
  shows "\<forall>n'. heap s' a = Some n' \<longrightarrow> LastPingWasGood n'"
  using assms
proof (induction xs arbitrary: s)
  case Nil
  then show ?case by simp
next
  case (Cons x xs)
  from Cons.prems(1) obtain s1 where x: "exec x s s1" and xs: "execs xs s1 s'" by auto
  have "LastPingWasGood n1" if n1: "heap s1 a = Some n1" for n1
  proof (cases "heap s a")
    case None
    from exec_new_node[OF x None n1] show ?thesis by simp
  next
    case (Some n)
    with Cons.prems(2) have "LastPingWasGood n" by simp
    with exec_old_node[OF x Some n1] Cons.prems(3) show ?thesis by auto
  qed
  with Cons.IH[OF xs] Cons.prems(3) show ?case by simp
qed

lemma alive_through_live:
  assumes "alive_through a xs s s'"
  shows "heap s a \<noteq> None"
  using assms by (cases xs) auto

lemma alive_through_bursting:
  assumes "alive_through a xs s s'" and "heap s a = Some n" and "\<not> bursting n"
  shows "\<exists>n'. heap s' a = Some n' \<and> \<not> bursting n'"
  using assms
proof (induction xs arbitrary: s n)
  case Nil
  then show ?case by simp
next
  case (Cons x xs)
  from Cons.prems(1) obtain s1 where x: "exec x s s1" and xs: "alive_through a xs s1 s'" by auto
  from alive_through_live[OF xs] obtain n1 where n1: "heap s1 a = Some n1" by auto
  from exec_old_node[OF x Cons.prems(2) n1] Cons.prems(3) have "\<not> bursting n1" by simp
  from Cons.IH[OF xs n1 this] show ?case .
qed

text \<open>
  Claim C6. \<open>SetNextPingTime\<close> with \<open>t\<close> makes \<open>NextPingTime\<close> return \<open>t\<close> and
  \<open>AnsweredLastPing\<close> return false. \<open>SetPingFlag\<close> makes \<open>AnsweredLastPing\<close> return true;
  and once it returns true it still does after any run of operations with no
  \<open>SetNextPingTime\<close> on that node in it, as long as the node is there to be asked.
  \<open>NextPingTime\<close> and \<open>AnsweredLastPing\<close> return the state they were called in.
\<close>

theorem C6_keepalive:
  "(SetNextPingTime this t s = Inr s1 \<longrightarrow>
      NextPingTime this s1 = Inr (t, s1) \<and> AnsweredLastPing this s1 = Inr (False, s1))
   \<and> (SetPingFlag this s = Inr s2 \<longrightarrow> AnsweredLastPing this s2 = Inr (True, s2))
   \<and> (AnsweredLastPing this s = Inr (True, s) \<longrightarrow> execs xs s s3 \<longrightarrow>
        (\<forall>t. DoSetNextPingTime this t \<notin> set xs) \<longrightarrow> heap s3 this \<noteq> None \<longrightarrow>
        AnsweredLastPing this s3 = Inr (True, s3))
   \<and> (NextPingTime this s = Inr (v, s4) \<longrightarrow> s4 = s)
   \<and> (AnsweredLastPing this s = Inr (b, s5) \<longrightarrow> s5 = s)"
proof (intro conjI impI)
  assume "SetNextPingTime this t s = Inr s1"
  then show "NextPingTime this s1 = Inr (t, s1)" "AnsweredLastPing this s1 = Inr (False, s1)"
    by (auto simp: SetNextPingTime_def modify_def NextPingTime_def AnsweredLastPing_def
             split: option.splits)
next
  assume "SetPingFlag this s = Inr s2"
  then show "AnsweredLastPing this s2 = Inr (True, s2)"
    by (auto simp: SetPingFlag_def modify_def AnsweredLastPing_def split: option.splits)
next
  assume a: "AnsweredLastPing this s = Inr (True, s)" and run: "execs xs s s3"
    and no: "\<forall>t. DoSetNextPingTime this t \<notin> set xs" and live: "heap s3 this \<noteq> None"
  from a have "\<forall>n. heap s this = Some n \<longrightarrow> LastPingWasGood n"
    by (auto simp: AnsweredLastPing_def split: option.splits)
  from execs_answered[OF run this no] live
  show "AnsweredLastPing this s3 = Inr (True, s3)"
    by (auto simp: AnsweredLastPing_def)
next
  assume "NextPingTime this s = Inr (v, s4)"
  then show "s4 = s" by (auto simp: NextPingTime_def split: option.splits)
next
  assume "AnsweredLastPing this s = Inr (b, s5)"
  then show "s5 = s" by (auto simp: AnsweredLastPing_def split: option.splits)
qed

theorem C6_keepalive_witness:
  "\<exists>s1 s2 s3. SetNextPingTime 1 2000 ex_B = Inr s1
      \<and> NextPingTime 1 s1 = Inr (2000, s1) \<and> AnsweredLastPing 1 s1 = Inr (False, s1)
      \<and> SetPingFlag 1 s1 = Inr s2 \<and> AnsweredLastPing 1 s2 = Inr (True, s2)
      \<and> execs [DoSetVersion 1 ''2.0'', DoFinishBurst 1, DoQuitUsers 1 ''gone''] s2 s3
      \<and> AnsweredLastPing 1 s3 = Inr (True, s3)
      \<and> NextPingTime 1 s3 = Inr (1060, s3)"
proof -
  define s1 where "s1 = (case SetNextPingTime 1 2000 ex_B of Inr s \<Rightarrow> s | Inl e \<Rightarrow> ex_B)"
  define s2 where "s2 = (case SetPingFlag 1 s1 of Inr s \<Rightarrow> s | Inl e \<Rightarrow> s1)"
  define sa where "sa = (case SetVersion 1 ''2.0'' s2 of Inr s \<Rightarrow> s | Inl e \<Rightarrow> s2)"
  note defs = s1_def s2_def sa_def SetNextPingTime_def SetPingFlag_def SetVersion_def modify_def
  have 1: "SetNextPingTime 1 2000 ex_B = Inr s1" by (simp add: defs ex_simps)
  have 2: "SetPingFlag 1 s1 = Inr s2" by (simp add: defs ex_simps)
  have a: "SetVersion 1 ''2.0'' s2 = Inr sa" by (simp add: defs ex_simps)
  have "depth_ok 1 (heap sa) 1" by (simp add: defs ex_simps)
  from FinishBurst_total[OF this] obtain sb where b: "FinishBurst 1 1 sa = Some (Inr sb)" by blast
  from FinishBurst_result[OF b] obtain n where n: "heap sa 1 = Some n"
    and sb: "heap sb 1 = heap (finish_all (subtree (heap sa) 1) sa) 1"
    by (auto simp: emit_def)
  have clock: "Time sa + PingFreq sa = 1060" by (simp add: defs ex_simps)
  from n sb have live_sb: "heap sb 1 = Some (finished sa n)"
    by (simp add: heap_finish_all subtree_def)
  then obtain s3 where c: "QuitUsers 1 ''gone'' sb = Inr (int (length (filter (\<lambda>u. server u = ServerName (finished sa n)) (map snd (clientlist sb)))), s3)"
    and h3: "heap s3 = heap sb"
    by (simp add: QuitUsers_def Let_def fold_quit_one)
  have run: "execs [DoSetVersion 1 ''2.0'', DoFinishBurst 1, DoQuitUsers 1 ''gone''] s2 s3"
    using a b c by auto
  have no: "\<forall>t. DoSetNextPingTime 1 t \<notin> set [DoSetVersion 1 ''2.0'', DoFinishBurst 1, DoQuitUsers 1 ''gone'']"
    by simp
  have live3: "heap s3 1 \<noteq> None" using live_sb by (simp add: h3)
  from C6_keepalive[of 1 2000 ex_B s1] 1
  have r1: "NextPingTime 1 s1 = Inr (2000, s1)" "AnsweredLastPing 1 s1 = Inr (False, s1)"
    by blast+
  from C6_keepalive[of 1 _ s1 _ s2] 2
  have r2: "AnsweredLastPing 1 s2 = Inr (True, s2)" by blast
  from C6_keepalive[of 1 _ s2 _ _ "[DoSetVersion 1 ''2.0'', DoFinishBurst 1, DoQuitUsers 1 ''gone'']" s3]
    r2 run no live3
  have r3: "AnsweredLastPing 1 s3 = Inr (True, s3)" by blast
  have r4: "NextPingTime 1 s3 = Inr (1060, s3)"
    using live_sb clock by (simp add: NextPingTime_def h3 finished_def)
  from 1 r1 2 r2 run r3 r4 show ?thesis by blast
qed

lemma FinishBurstInternal_clears:
  assumes "FinishBurstInternal k b s = Some (Inr s')" and "d \<in> subtree (heap s) b"
  shows "\<exists>m. heap s' d = Some m \<and> \<not> bursting m"
proof -
  from FinishBurstInternal_char[OF assms(1)] assms(2) obtain m where "heap s d = Some m"
    and "s' = finish_all (subtree (heap s) b) s"
    by auto
  with assms(2) show ?thesis
    by (simp add: heap_finish_all finished_def)
qed

lemma FinishBurst_clears:
  assumes "FinishBurst k b s = Some (Inr s')" and "d \<in> subtree (heap s) b"
  shows "\<exists>m. heap s' d = Some m \<and> \<not> bursting m"
proof -
  from FinishBurst_result[OF assms(1)] assms(2) obtain m where "heap s d = Some m"
    and "heap s' = heap (finish_all (subtree (heap s) b) s)"
    by (auto simp: emit_def)
  with assms(2) show ?thesis
    by (simp add: heap_finish_all finished_def)
qed

text \<open>
  Claim C7. A node is bursting when the child constructor returns and not bursting
  when the root constructor returns. A live node that is bursting before an operation
  and not after it was finished by that operation: a \<open>FinishBurst\<close> or
  \<open>FinishBurstInternal\<close> on the node or on an ancestor. A node that is not
  bursting stays so through every run of operations during which it is live.
  And finishing ends the burst: when the child lists below \<open>b\<close> form a finite
  structure of live nodes, \<open>FinishBurst\<close> and \<open>FinishBurstInternal\<close> on \<open>b\<close> return, and
  \<open>b\<close> and all its descendants are live and not bursting afterwards; so they are
  after every such call that returns at all. The root constructor always returns, and
  the child constructor returns on a tree whose nodes carry their route, under any live
  parent, on memory not in use.
\<close>

theorem C7_bursting_monotone:
  "(TreeServer_child this Name Desc id' Above' Sock Hide s = Some (Inr s1) \<longrightarrow>
      (\<exists>n. heap s1 this = Some n \<and> bursting n))
   \<and> (TreeServer_root this np lp s = Inr s2 \<longrightarrow> (\<exists>n. heap s2 this = Some n \<and> \<not> bursting n))
   \<and> (exec x s s3 \<longrightarrow> heap s a = Some n \<longrightarrow> heap s3 a = Some n3 \<longrightarrow>
        bursting n \<longrightarrow> \<not> bursting n3 \<longrightarrow> (\<exists>b. finishes x b \<and> a \<in> subtree (heap s) b))
   \<and> (alive_through a xs s s4 \<longrightarrow> heap s a = Some n \<longrightarrow> \<not> bursting n \<longrightarrow>
        (\<exists>n4. heap s4 a = Some n4 \<and> \<not> bursting n4))
   \<and> (depth_ok k (heap s) c \<longrightarrow>
        (\<exists>s5. FinishBurst k c s = Some (Inr s5)
            \<and> (\<forall>d \<in> subtree (heap s) c. \<exists>n5. heap s5 d = Some n5 \<and> \<not> bursting n5)))
   \<and> (depth_ok k (heap s) c \<longrightarrow>
        (\<exists>s6. FinishBurstInternal k c s = Some (Inr s6)
            \<and> (\<forall>d \<in> subtree (heap s) c. \<exists>n6. heap s6 d = Some n6 \<and> \<not> bursting n6)))
   \<and> (exec x s s3 \<longrightarrow> finishes x c \<longrightarrow>
        (\<forall>d \<in> subtree (heap s) c. \<exists>n7. heap s3 d = Some n7 \<and> \<not> bursting n7))
   \<and> (\<exists>s8 n8. TreeServer_root this np lp s = Inr s8 \<and> heap s8 this = Some n8 \<and> \<not> bursting n8)
   \<and> (routes_inv s \<longrightarrow> TreeRoot s = Some r \<longrightarrow> heap s p = Some pn \<longrightarrow> heap s this = None \<longrightarrow>
        (\<exists>s9 n9. TreeServer_child this Name Desc id' (Some p) Sock Hide s = Some (Inr s9)
            \<and> heap s9 this = Some n9 \<and> bursting n9))"
proof -
  have built: "\<exists>n. heap s' this = Some n \<and> bursting n"
    if "TreeServer_child this Name Desc id' A Sock Hide s = Some (Inr s')" for A s'
  proof -
    from that obtain q where "s' = child_state this Name Desc id' A Sock Hide q s"
      by (auto simp: TreeServer_child_unfold split: option.splits sum.splits if_splits)
    then show ?thesis
      by (simp add: child_state_def child_node_def)
  qed
  have rooted: "\<exists>n. heap s' this = Some n \<and> \<not> bursting n"
    if "TreeServer_root this np lp s = Inr s'" for s'
    using root_effect[OF that] by auto
  have 3: "\<exists>b. finishes x b \<and> a \<in> subtree (heap s) b"
    if "exec x s s3" "heap s a = Some n" "heap s3 a = Some n3" "bursting n" "\<not> bursting n3"
    using exec_old_node[of x s s3 a n n3] that by blast
  have 4: "\<exists>n4. heap s4 a = Some n4 \<and> \<not> bursting n4"
    if "alive_through a xs s s4" "heap s a = Some n" "\<not> bursting n"
    using that by (rule alive_through_bursting)
  have 5: "\<exists>s5. FinishBurst k c s = Some (Inr s5)
            \<and> (\<forall>d \<in> subtree (heap s) c. \<exists>n5. heap s5 d = Some n5 \<and> \<not> bursting n5)"
    if "depth_ok k (heap s) c"
  proof -
    from FinishBurst_total[OF that] obtain s5 where "FinishBurst k c s = Some (Inr s5)" by blast
    with FinishBurst_clears[OF this] show ?thesis by blast
  qed
  have 6: "\<exists>s6. FinishBurstInternal k c s = Some (Inr s6)
            \<and> (\<forall>d \<in> subtree (heap s) c. \<exists>n6. heap s6 d = Some n6 \<and> \<not> bursting n6)"
    if "depth_ok k (heap s) c"
  proof -
    from FinishBurstInternal_total[OF that] obtain s6
      where "FinishBurstInternal k c s = Some (Inr s6)" by blast
    with FinishBurstInternal_clears[OF this] show ?thesis by blast
  qed
  have 7: "\<forall>d \<in> subtree (heap s) c. \<exists>n7. heap s3 d = Some n7 \<and> \<not> bursting n7"
    if "exec x s s3" "finishes x c"
    using that FinishBurst_clears[of _ c s s3] FinishBurstInternal_clears[of _ c s s3]
    by (auto simp: finishes_def)
  have 8: "\<exists>s8 n8. TreeServer_root this np lp s = Inr s8 \<and> heap s8 this = Some n8 \<and> \<not> bursting n8"
  proof -
    obtain s8 where "TreeServer_root this np lp s = Inr s8"
      by (simp add: TreeServer_root_def AddHashEntry_def)
    with rooted[OF this] show ?thesis by blast
  qed
  have 9: "\<exists>s9 n9. TreeServer_child this Name Desc id' (Some p) Sock Hide s = Some (Inr s9)
            \<and> heap s9 this = Some n9 \<and> bursting n9"
    if "routes_inv s" "TreeRoot s = Some r" "heap s p = Some pn" "heap s this = None"
  proof -
    from routes_inv_child[OF that, of Name Desc id' Sock Hide] obtain s9
      where "TreeServer_child this Name Desc id' (Some p) Sock Hide s = Some (Inr s9)"
      by blast
    with built[OF this] show ?thesis by blast
  qed
  show ?thesis
    apply (intro conjI impI)
    subgoal by (rule built)
    subgoal by (rule rooted)
    subgoal by (rule 3)
    subgoal by (rule 4)
    subgoal by (rule 5)
    subgoal by (rule 6)
    subgoal by (rule 7)
    subgoal by (rule 8)
    subgoal by (rule 9)
    done
qed

theorem C7_bursting_monotone_witness:
  "(\<exists>s1. TreeServer_child 1 ''b.example'' [] ''00B'' (Some 0) None False ex_root = Some (Inr s1)
        \<and> map_option bursting (heap s1 1) = Some True)
   \<and> (\<exists>s2. TreeServer_root 0 0 False ex_boot = Inr s2
        \<and> map_option bursting (heap s2 0) = Some False)
   \<and> map_option bursting (heap ex_B 1) = Some True
   \<and> (\<exists>s3 s4. exec (DoFinishBurst 1) ex_B s3
        \<and> map_option bursting (heap s3 1) = Some False
        \<and> (\<exists>b. finishes (DoFinishBurst 1) b \<and> 1 \<in> subtree (heap ex_B) b)
        \<and> alive_through 1 [DoSetNextPingTime 1 5, DoSetVersion 1 ''2.0''] s3 s4
        \<and> map_option bursting (heap s4 1) = Some False)
   \<and> depth_ok 2 (heap ex_chain) 1
   \<and> children_of 1 ex_chain = Some [2]
   \<and> map_option bursting (heap ex_chain 1) = Some True
   \<and> map_option bursting (heap ex_chain 2) = Some True
   \<and> (\<exists>s5. FinishBurst 2 1 ex_chain = Some (Inr s5)
        \<and> map_option bursting (heap s5 1) = Some False
        \<and> map_option bursting (heap s5 2) = Some False)
   \<and> (\<exists>s6. FinishBurstInternal 2 1 ex_chain = Some (Inr s6)
        \<and> map_option bursting (heap s6 1) = Some False
        \<and> map_option bursting (heap s6 2) = Some False)
   \<and> (\<exists>s7. exec (DoFinishBurstInternal 1) ex_chain s7
        \<and> map_option bursting (heap s7 2) = Some False)
   \<and> routes_inv ex_B \<and> TreeRoot ex_B = Some 0 \<and> heap ex_B 2 = None
   \<and> (\<exists>s9. TreeServer_child 2 ''d.example'' [] ''00D'' (Some 1) None False ex_B = Some (Inr s9)
        \<and> map_option bursting (heap s9 2) = Some True)"
proof -
  obtain s1 where c: "TreeServer_child 1 ''b.example'' [] ''00B'' (Some 0) None False ex_root = Some (Inr s1)"
    by (simp add: TreeServer_child_unfold ex_root_def ex_boot_def TreeServer_root_def AddHashEntry_def)
  from C7_bursting_monotone[of 1 "''b.example''" "[]" "''00B''" "Some 0" None False ex_root s1] c
  have p1: "map_option bursting (heap s1 1) = Some True" by auto
  from C7_bursting_monotone[THEN conjunct2, THEN conjunct2, THEN conjunct2, THEN conjunct2,
      THEN conjunct2, THEN conjunct2, THEN conjunct2, THEN conjunct1, of 0 0 False ex_boot]
  obtain s2 where r: "TreeServer_root 0 0 False ex_boot = Inr s2"
    and p2: "map_option bursting (heap s2 0) = Some False" by auto
  obtain n where n: "heap ex_B 1 = Some n" and bn: "bursting n"
    by (simp add: ex_simps)
  have "depth_ok 1 (heap ex_B) 1" by (simp add: ex_simps)
  from FinishBurst_total[OF this] obtain s3 where f: "FinishBurst 1 1 ex_B = Some (Inr s3)"
    by blast
  then have x3: "exec (DoFinishBurst 1) ex_B s3" by auto
  from FinishBurst_result[OF f] n
  have h3: "heap s3 1 = Some (finished ex_B n)"
    by (auto simp: emit_def heap_finish_all subtree_def)
  then have nb3: "\<not> bursting (finished ex_B n)" by (simp add: finished_def)
  define sa where "sa = (case SetNextPingTime 1 5 s3 of Inr s \<Rightarrow> s | Inl e \<Rightarrow> s3)"
  define s4 where "s4 = (case SetVersion 1 ''2.0'' sa of Inr s \<Rightarrow> s | Inl e \<Rightarrow> sa)"
  have a: "SetNextPingTime 1 5 s3 = Inr sa" and ha: "heap sa 1 \<noteq> None"
    using h3 by (simp_all add: sa_def SetNextPingTime_def modify_def)
  then have b: "SetVersion 1 ''2.0'' sa = Inr s4" and h4: "heap s4 1 \<noteq> None"
    by (auto simp: s4_def SetVersion_def modify_def)
  have run: "alive_through 1 [DoSetNextPingTime 1 5, DoSetVersion 1 ''2.0''] s3 s4"
    using a b ha h4 h3 by auto
  from C7_bursting_monotone[THEN conjunct2, THEN conjunct2, THEN conjunct1, rule_format,
      OF x3 n h3 bn nb3]
  have p3: "\<exists>b. finishes (DoFinishBurst 1) b \<and> 1 \<in> subtree (heap ex_B) b" .
  from C7_bursting_monotone[THEN conjunct2, THEN conjunct2, THEN conjunct2, THEN conjunct1,
      rule_format, OF run h3 nb3]
  have p4: "map_option bursting (heap s4 1) = Some False" by auto
  have p0: "map_option bursting (heap ex_B 1) = Some True" using n bn by simp
  have q3: "map_option bursting (heap s3 1) = Some False" using h3 nb3 by simp
  from x3 q3 p3 run p4 have e34: "\<exists>s3 s4. exec (DoFinishBurst 1) ex_B s3
        \<and> map_option bursting (heap s3 1) = Some False
        \<and> (\<exists>b. finishes (DoFinishBurst 1) b \<and> 1 \<in> subtree (heap ex_B) b)
        \<and> alive_through 1 [DoSetNextPingTime 1 5, DoSetVersion 1 ''2.0''] s3 s4
        \<and> map_option bursting (heap s4 1) = Some False" by blast
  have ok: "depth_ok 2 (heap ex_chain) 1"
    by (simp add: numeral_2_eq_2 ex_simps)
  have kids: "children_of 1 ex_chain = Some [2]"
    by (simp add: children_of_def ex_simps)
  have before: "map_option bursting (heap ex_chain 1) = Some True"
    "map_option bursting (heap ex_chain 2) = Some True"
    by (simp_all add: ex_simps)
  have B: "1 \<in> subtree (heap ex_chain) 1" by (simp add: subtree_def)
  have "(1, 2) \<in> child_rel (heap ex_chain)"
    by (simp add: child_rel_def ex_simps)
  then have D: "2 \<in> subtree (heap ex_chain) 1" by (auto simp: subtree_def)
  from C7_bursting_monotone[THEN conjunct2, THEN conjunct2, THEN conjunct2, THEN conjunct2,
      THEN conjunct1, rule_format, OF ok]
  obtain s5 where r5: "FinishBurst 2 1 ex_chain = Some (Inr s5)"
    and all5: "\<forall>d \<in> subtree (heap ex_chain) 1. \<exists>n5. heap s5 d = Some n5 \<and> \<not> bursting n5"
    by blast
  from all5 B D have p5: "map_option bursting (heap s5 1) = Some False"
    "map_option bursting (heap s5 2) = Some False"
    by auto
  from C7_bursting_monotone[THEN conjunct2, THEN conjunct2, THEN conjunct2, THEN conjunct2,
      THEN conjunct2, THEN conjunct1, rule_format, OF ok]
  obtain s6 where r6: "FinishBurstInternal 2 1 ex_chain = Some (Inr s6)"
    and all6: "\<forall>d \<in> subtree (heap ex_chain) 1. \<exists>n6. heap s6 d = Some n6 \<and> \<not> bursting n6"
    by blast
  from all6 B D have p6: "map_option bursting (heap s6 1) = Some False"
    "map_option bursting (heap s6 2) = Some False"
    by auto
  from r6 have x7: "exec (DoFinishBurstInternal 1) ex_chain s6" by auto
  have fin: "finishes (DoFinishBurstInternal 1) 1" by (simp add: finishes_def)
  from C7_bursting_monotone[THEN conjunct2, THEN conjunct2, THEN conjunct2, THEN conjunct2,
      THEN conjunct2, THEN conjunct2, THEN conjunct1, rule_format, OF x7 fin D]
  have p7: "map_option bursting (heap s6 2) = Some False" by auto
  have inv: "routes_inv ex_B"
    by (auto simp: routes_inv_def is_route_def parent_rel_def ex_simps)
  have root: "TreeRoot ex_B = Some 0" and fresh: "heap ex_B 2 = None"
    by (simp_all add: ex_simps)
  from C7_bursting_monotone[THEN conjunct2, THEN conjunct2, THEN conjunct2, THEN conjunct2,
      THEN conjunct2, THEN conjunct2, THEN conjunct2, THEN conjunct2, rule_format,
      OF inv root n fresh, of "''d.example''" "[]" "''00D''" None False]
  obtain s9 where r9: "TreeServer_child 2 ''d.example'' [] ''00D'' (Some 1) None False ex_B = Some (Inr s9)"
    and p9: "map_option bursting (heap s9 2) = Some True" by auto
  from c p1 have e1: "\<exists>s1. TreeServer_child 1 ''b.example'' [] ''00B'' (Some 0) None False ex_root = Some (Inr s1)
        \<and> map_option bursting (heap s1 1) = Some True" by blast
  from r p2 have e2: "\<exists>s2. TreeServer_root 0 0 False ex_boot = Inr s2
        \<and> map_option bursting (heap s2 0) = Some False" by blast
  from r5 p5 have e5: "\<exists>s5. FinishBurst 2 1 ex_chain = Some (Inr s5)
        \<and> map_option bursting (heap s5 1) = Some False
        \<and> map_option bursting (heap s5 2) = Some False" by blast
  from r6 p6 have e6: "\<exists>s6. FinishBurstInternal 2 1 ex_chain = Some (Inr s6)
        \<and> map_option bursting (heap s6 1) = Some False
        \<and> map_option bursting (heap s6 2) = Some False" by blast
  from x7 p7 have e7: "\<exists>s7. exec (DoFinishBurstInternal 1) ex_chain s7
        \<and> map_option bursting (heap s7 2) = Some False" by blast
  from r9 p9 have e9: "\<exists>s9. TreeServer_child 2 ''d.example'' [] ''00D'' (Some 1) None False ex_B = Some (Inr s9)
        \<and> map_option bursting (heap s9 2) = Some True" by blast
  from e1 e2 p0 e34 ok kids before e5 e6 e7 inv root fresh e9 show ?thesis
    by (intro conjI)
qed

text \<open>
  Claim C8. When the index is exact before an operation and the live nodes after it
  have pairwise distinct names and SIDs, the index is exact after it. An operation
  that neither creates nor destroys a node leaves both maps as they are. The child
  constructor adds the new node under its name and its SID; \<open>delete\<close> removes the
  node and the entries under its name and its SID; and the root constructor adds the
  root under the configured name and SID and, on memory not in use, keeps the index
  exact in the same way.
\<close>

theorem C8_index_exact:
  "(index_inv s \<longrightarrow> exec x s s' \<longrightarrow> distinct_ids s' \<longrightarrow> index_inv s')
   \<and> (exec x s s' \<longrightarrow> \<not> changes_index x \<longrightarrow>
        serverlist s' = serverlist s \<and> sidlist s' = sidlist s)
   \<and> (exec (NewChild this Name Desc id' Above' Sock Hide) s s1 \<longrightarrow>
        serverlist s1 = (serverlist s)(Name \<mapsto> this) \<and> sidlist s1 = (sidlist s)(id' \<mapsto> this)
        \<and> (\<exists>n. heap s1 = (heap s)(this \<mapsto> n) \<and> ServerName n = Name \<and> sid n = id'))
   \<and> (exec (Delete a) s s2 \<longrightarrow> heap s a = Some n \<longrightarrow>
        serverlist s2 = (serverlist s)(ServerName n := None)
        \<and> sidlist s2 = (sidlist s)(sid n := None) \<and> heap s2 = (heap s)(a := None))
   \<and> (TreeServer_root this np lp s = Inr s3 \<longrightarrow>
        serverlist s3 = (serverlist s)(Config_ServerName s \<mapsto> this)
        \<and> sidlist s3 = (sidlist s)(Config_SID s \<mapsto> this))
   \<and> (index_inv s \<longrightarrow> heap s this = None \<longrightarrow> TreeServer_root this np lp s = Inr s3 \<longrightarrow>
        distinct_ids s3 \<longrightarrow> index_inv s3)"
proof (intro conjI impI)
  assume "index_inv s" "exec x s s'" "distinct_ids s'"
  then show "index_inv s'" by (rule exec_index_inv)
next
  assume "exec x s s'" "\<not> changes_index x"
  from exec_index_frame[OF this]
  show "serverlist s' = serverlist s" "sidlist s' = sidlist s" by simp_all
next
  assume "exec (NewChild this Name Desc id' Above' Sock Hide) s s1"
  then obtain r where s1: "s1 = child_state this Name Desc id' Above' Sock Hide r s"
    by (auto simp: TreeServer_child_unfold split: option.splits sum.splits if_splits)
  show "serverlist s1 = (serverlist s)(Name \<mapsto> this)" "sidlist s1 = (sidlist s)(id' \<mapsto> this)"
    by (simp_all add: s1 child_state_def)
  have "heap s1 = (heap s)(this \<mapsto> child_node s Name Desc id' Above' Sock Hide r)"
    by (simp add: s1 child_state_def)
  then show "\<exists>n. heap s1 = (heap s)(this \<mapsto> n) \<and> ServerName n = Name \<and> sid n = id'"
    by (intro exI[of _ "child_node s Name Desc id' Above' Sock Hide r"])
       (simp add: child_node_def)
next
  assume "exec (Delete a) s s2" "heap s a = Some n"
  then have d: "delete_TreeServer a s = Inr s2" "heap s a = Some n" by simp_all
  from delete_effect[OF d]
  show "serverlist s2 = (serverlist s)(ServerName n := None)"
    "sidlist s2 = (sidlist s)(sid n := None)" "heap s2 = (heap s)(a := None)"
    by simp_all
next
  assume "TreeServer_root this np lp s = Inr s3"
  from root_effect[OF this]
  show "serverlist s3 = (serverlist s)(Config_ServerName s \<mapsto> this)"
    "sidlist s3 = (sidlist s)(Config_SID s \<mapsto> this)"
    by auto
next
  assume inv: "index_inv s" and fresh: "heap s this = None"
    and root: "TreeServer_root this np lp s = Inr s3" and dist: "distinct_ids s3"
  from root_effect[OF root] obtain m where "heap s3 = (heap s)(this \<mapsto> m)"
    "serverlist s3 = (serverlist s)(ServerName m \<mapsto> this)"
    "sidlist s3 = (sidlist s)(sid m \<mapsto> this)"
    by blast
  with inv fresh show "index_inv s3" using dist by (rule index_inv_insert)
qed

theorem C8_index_exact_witness:
  "index_inv ex_root
   \<and> (\<exists>s1. exec (NewChild 1 ''b.example'' [] ''00B'' (Some 0) None False) ex_root s1
        \<and> distinct_ids s1 \<and> index_inv s1
        \<and> name_entry ''b.example'' s1 = Some 1 \<and> sid_entry ''00B'' s1 = Some 1)
   \<and> (\<exists>s2. exec (DoSetVersion 1 ''2.0'') ex_B s2
        \<and> serverlist s2 = serverlist ex_B \<and> sidlist s2 = sidlist ex_B)
   \<and> (\<exists>s3. exec (Delete 1) ex_B s3
        \<and> name_entry ''b.example'' s3 = None \<and> sid_entry ''00B'' s3 = None
        \<and> name_entry ''root.example'' s3 = Some 0 \<and> live 1 s3 = False)
   \<and> index_inv ex_boot
   \<and> (\<exists>s4. TreeServer_root 0 0 False ex_boot = Inr s4 \<and> distinct_ids s4 \<and> index_inv s4
        \<and> name_entry ''root.example'' s4 = Some 0 \<and> sid_entry ''001'' s4 = Some 0)"
proof -
  have inv_root: "index_inv ex_root"
    unfolding index_inv_def by (auto simp: ex_simps split: if_splits)
  define s1 where "s1 = child_state 1 ''b.example'' [] ''00B'' (Some 0) None False (Some 1) ex_root"
  have x1: "exec (NewChild 1 ''b.example'' [] ''00B'' (Some 0) None False) ex_root s1"
    by (simp add: s1_def TreeServer_child_unfold ex_root_def ex_boot_def TreeServer_root_def
          AddHashEntry_def)
  have d1: "distinct_ids s1"
    unfolding distinct_ids_def
    by (auto simp: s1_def child_state_def child_node_def ex_simps split: if_splits)
  from C8_index_exact[of ex_root "NewChild 1 ''b.example'' [] ''00B'' (Some 0) None False" s1]
    inv_root x1 d1
  have i1: "index_inv s1" by blast
  from C8_index_exact[of ex_root _ _ 1 "''b.example''" "[]" "''00B''" "Some 0" None False s1] x1
  have e1: "name_entry ''b.example'' s1 = Some 1" "sid_entry ''00B'' s1 = Some 1"
    by (simp_all add: name_entry_def sid_entry_def)
  define s2 where "s2 = (case SetVersion 1 ''2.0'' ex_B of Inr s \<Rightarrow> s | Inl e \<Rightarrow> ex_B)"
  have x2: "exec (DoSetVersion 1 ''2.0'') ex_B s2"
    by (simp add: s2_def SetVersion_def modify_def ex_simps)
  from C8_index_exact[of ex_B "DoSetVersion 1 ''2.0''" s2] x2
  have e2: "serverlist s2 = serverlist ex_B" "sidlist s2 = sidlist ex_B" by simp_all
  define s3 where "s3 = (case delete_TreeServer 1 ex_B of Inr s \<Rightarrow> s | Inl e \<Rightarrow> ex_B)"
  obtain n where n: "heap ex_B 1 = Some n" "ServerName n = ''b.example''" "sid n = ''00B''"
    by (simp add: ex_simps)
  have x3: "exec (Delete 1) ex_B s3"
    using n(1) by (simp add: s3_def delete_TreeServer_def Let_def)
  from C8_index_exact[of ex_B _ _ _ _ _ _ _ _ _ _ 1 s3 n] x3 n(1)
  have "serverlist s3 = (serverlist ex_B)(ServerName n := None)"
    "sidlist s3 = (sidlist ex_B)(sid n := None)" "heap s3 = (heap ex_B)(1 := None)"
    by blast+
  then have e3: "name_entry ''b.example'' s3 = None" "sid_entry ''00B'' s3 = None"
    "name_entry ''root.example'' s3 = Some 0" "live 1 s3 = False"
    by (simp_all add: name_entry_def sid_entry_def live_def n ex_simps)
  have inv_boot: "index_inv ex_boot" by (simp add: index_inv_def ex_boot_def)
  define s4 where "s4 = (case TreeServer_root 0 0 False ex_boot of Inr s \<Rightarrow> s | Inl e \<Rightarrow> ex_boot)"
  have x4: "TreeServer_root 0 0 False ex_boot = Inr s4"
    by (simp add: s4_def TreeServer_root_def AddHashEntry_def)
  have d4: "distinct_ids s4"
    unfolding distinct_ids_def
    by (auto simp: s4_def TreeServer_root_def AddHashEntry_def ex_boot_def split: if_splits)
  have fresh: "heap ex_boot 0 = None" by (simp add: ex_boot_def)
  from C8_index_exact[of ex_boot _ _ 0 _ _ _ _ _ _ _ _ _ _ 0 False s4] inv_boot fresh x4 d4
  have i4: "index_inv s4" by blast
  from C8_index_exact[of ex_boot _ _ 0 _ _ _ _ _ _ _ _ _ _ 0 False s4] x4
  have e4: "name_entry ''root.example'' s4 = Some 0" "sid_entry ''001'' s4 = Some 0"
    by (simp_all add: name_entry_def sid_entry_def ex_boot_def)
  from inv_root x1 d1 i1 e1 x2 e2 x3 e3 inv_boot x4 d4 i4 e4 show ?thesis by blast
qed

end
